theory Spec2Isabelle
  imports Main "HOL-Library.Word"
begin

unbundle bit_operations_syntax

section \<open>mini-display: the region-update receiver of \<^verbatim>\<open>src/main.cpp\<close>\<close>

text \<open>
  The sketch runs on an ESP8266: \<^verbatim>\<open>uint8_t\<close>, \<^verbatim>\<open>uint16_t\<close> are 8 and 16 bits wide,
  \<^verbatim>\<open>unsigned long\<close> (the type of \<^verbatim>\<open>millis()\<close>) is 32 bits wide and wraps around,
  \<^verbatim>\<open>int\<close> is 32 bits wide and the memory is little-endian.
\<close>

type_synonym u8 = "8 word"
type_synonym u16 = "16 word"
type_synonym u32 = "32 word"

subsection \<open>State\<close>

text \<open>
  One call \<^verbatim>\<open>tft.pushImage(x, y, width, height, updateBuffer)\<close>: the four arguments as
  the sketch's \<^verbatim>\<open>uint16_t\<close> variables hold them, and the 1024 pixels that the pointer
  \<^verbatim>\<open>updateBuffer\<close> gives access to at the time of the call.
\<close>

record pushImage_call =
  img_x :: u16
  img_y :: u16
  img_w :: u16
  img_h :: u16
  img_data :: "u16 list"

text \<open>
  The two arrays \<^verbatim>\<open>readExactBytes\<close> is handed: the local \<^verbatim>\<open>metaData[8]\<close>, and
  \<^verbatim>\<open>(uint8_t*)&updateBuffer[k]\<close>, kept as the byte offset \<open>2 * k\<close> into the global.
\<close>

datatype buffer = MetaData | ByteBuffer nat

text \<open>The aborts of \<^verbatim>\<open>loop()\<close>, one for each message it prints before \<^verbatim>\<open>return\<close>.\<close>

datatype error =
    NoClient
  | ClientTimeout
  | InvalidNumberOfRegions
  | FailedMetadata
  | InvalidDimensions
  | FailedRow nat nat

text \<open>
  Everything the sketch reads or changes.
  \<^item> \<open>clock\<close>: milliseconds since boot, as real time has them; \<^verbatim>\<open>millis()\<close> is its low
    32 bits.
  \<^item> \<open>elapse\<close>: how long each coming \<^verbatim>\<open>yield()\<close> takes, in ms (possibly 0); once the
    list is used up a \<^verbatim>\<open>yield()\<close> takes 1 ms, so that time never stands still for ever.
  \<^item> \<open>connected\<close>: whether \<^verbatim>\<open>server.accept()\<close> hands out a client.
  \<^item> \<open>incoming\<close>: the bytes the peer sends that have not been read yet, in stream order,
    each with the time it arrives at the device.
  \<^item> \<open>sent\<close>: the bytes written to the peer. \<open>stopped\<close>: \<^verbatim>\<open>client.stop()\<close> was called.
  \<^item> \<open>metaData\<close>: the 8 bytes of the local array. \<open>updateBuffer\<close>: the bytes of the
    global \<^verbatim>\<open>uint16_t updateBuffer[32 * 32]\<close>, 2048 of them, pixel \<open>k\<close> in bytes \<open>2 * k\<close>
    (low) and \<open>2 * k + 1\<close> (high).
  \<^item> \<open>stores\<close>: the byte offset into \<open>updateBuffer\<close> of every write made through a
    \<open>ByteBuffer\<close> pointer, in order. \<open>overrun\<close>: some access fell outside its array
    (undefined behaviour in C++).
  \<^item> \<open>tft\<close>: the calls of \<^verbatim>\<open>tft.pushImage\<close>, in order.
\<close>

record system =
  clock :: nat
  elapse :: "nat list"
  connected :: bool
  incoming :: "(nat \<times> u8) list"
  sent :: "u8 list"
  stopped :: bool
  metaData :: "u8 list"
  updateBuffer :: "u8 list"
  stores :: "nat list"
  overrun :: bool
  tft :: "pushImage_call list"

definition MAX_CHUNK_SIZE :: nat where
  "MAX_CHUNK_SIZE = 32"

subsection \<open>The runtime: time, the client, memory, the display\<close>

definition millis :: "system \<Rightarrow> u32" where
  "millis s = word_of_nat (clock s)"

definition yield :: "system \<Rightarrow> system" where
  "yield s = (case elapse s of
      [] \<Rightarrow> s\<lparr>clock := clock s + 1\<rparr>
    | d # ds \<Rightarrow> s\<lparr>clock := clock s + d, elapse := ds\<rparr>)"

definition delay :: "nat \<Rightarrow> system \<Rightarrow> system" where
  "delay ms s = s\<lparr>clock := clock s + ms\<rparr>"

definition available :: "system \<Rightarrow> bool" where
  "available s = (case incoming s of [] \<Rightarrow> False | (t, b) # rest \<Rightarrow> t \<le> clock s)"

text \<open>\<^verbatim>\<open>client.read()\<close> gives -1 when no byte is there, 255 once stored in a \<^verbatim>\<open>uint8_t\<close>.\<close>

definition client_read :: "system \<Rightarrow> u8 \<times> system" where
  "client_read s = (case incoming s of
      [] \<Rightarrow> (255, s)
    | (t, b) # rest \<Rightarrow> if t \<le> clock s then (b, s\<lparr>incoming := rest\<rparr>) else (255, s))"

definition client_write :: "u8 list \<Rightarrow> system \<Rightarrow> system" where
  "client_write bs s = s\<lparr>sent := sent s @ bs\<rparr>"

definition client_stop :: "system \<Rightarrow> system" where
  "client_stop s = s\<lparr>stopped := True\<rparr>"

text \<open>\<^verbatim>\<open>buffer[i] = v\<close> and \<^verbatim>\<open>buffer[i]\<close> through a byte pointer.\<close>

definition poke :: "buffer \<Rightarrow> nat \<Rightarrow> u8 \<Rightarrow> system \<Rightarrow> system" where
  "poke buffer i v s = (case buffer of
      MetaData \<Rightarrow>
        if i < length (metaData s) then s\<lparr>metaData := (metaData s)[i := v]\<rparr>
        else s\<lparr>overrun := True\<rparr>
    | ByteBuffer base \<Rightarrow>
        if base + i < length (updateBuffer s)
        then s\<lparr>updateBuffer := (updateBuffer s)[base + i := v], stores := stores s @ [base + i]\<rparr>
        else s\<lparr>stores := stores s @ [base + i], overrun := True\<rparr>)"

definition peek :: "buffer \<Rightarrow> nat \<Rightarrow> system \<Rightarrow> u8" where
  "peek buffer i s = (case buffer of
      MetaData \<Rightarrow> if i < length (metaData s) then metaData s ! i else 0
    | ByteBuffer base \<Rightarrow>
        if base + i < length (updateBuffer s) then updateBuffer s ! (base + i) else 0)"

text \<open>The array a byte pointer points into, and the index in it of the pointer's target.\<close>

definition array :: "buffer \<Rightarrow> system \<Rightarrow> u8 list" where
  "array buffer s = (case buffer of MetaData \<Rightarrow> metaData s | ByteBuffer base \<Rightarrow> updateBuffer s)"

definition origin :: "buffer \<Rightarrow> nat" where
  "origin buffer = (case buffer of MetaData \<Rightarrow> 0 | ByteBuffer base \<Rightarrow> base)"

text \<open>The pixels of \<open>updateBuffer\<close> as the \<^verbatim>\<open>uint16_t\<close> array shows them (little-endian).\<close>

definition pixel :: "u8 list \<Rightarrow> nat \<Rightarrow> u16" where
  "pixel mem k = push_bit 8 (ucast (mem ! (2 * k + 1))) OR ucast (mem ! (2 * k))"

definition pixels :: "u8 list \<Rightarrow> u16 list" where
  "pixels mem = map (pixel mem) [0..<length mem div 2]"

definition pushImage :: "u16 \<Rightarrow> u16 \<Rightarrow> u16 \<Rightarrow> u16 \<Rightarrow> system \<Rightarrow> system" where
  "pushImage x y w h s =
     s\<lparr>tft := tft s @ [\<lparr>img_x = x, img_y = y, img_w = w, img_h = h,
                          img_data = pixels (updateBuffer s)\<rparr>]\<rparr>"

subsection \<open>\<^verbatim>\<open>readExactBytes\<close>\<close>

text \<open>
  The \<^verbatim>\<open>while\<close> loop of \<^verbatim>\<open>readExactBytes\<close>, from the state in which \<open>received\<close> bytes
  have been stored; it returns the final \<open>received\<close>.
\<close>

function readLoop :: "buffer \<Rightarrow> nat \<Rightarrow> u32 \<Rightarrow> nat \<Rightarrow> system \<Rightarrow> nat \<times> system" where
  "readLoop buffer len timeout received s =
     (if received < len \<and> millis s < timeout then
        (if available s then
           (case client_read s of (b, s1) \<Rightarrow>
              readLoop buffer len timeout (Suc received) (yield (poke buffer received b s1)))
         else readLoop buffer len timeout received (yield s))
      else (received, s))"
  by pat_completeness auto

definition readExactBytes :: "buffer \<Rightarrow> nat \<Rightarrow> system \<Rightarrow> bool \<times> system" where
  "readExactBytes buffer len s =
     (let timeout = millis s + 1000 in
      case readLoop buffer len timeout 0 s of (received, s') \<Rightarrow> (received = len, s'))"

subsection \<open>\<^verbatim>\<open>loop\<close>\<close>

text \<open>
  \<^verbatim>\<open>while (!client.available() && millis() < timeout) delay(10);\<close> With an arbitrary
  \<open>timeout\<close> the steps of 10 ms can jump over the last values below \<open>2 ^ 32\<close> for ever, so
  the loop is a partial function; \<open>None\<close> is the run that never leaves it.
\<close>

partial_function (option) waitLoop :: "u32 \<Rightarrow> system \<Rightarrow> system option" where
  "waitLoop timeout s =
     (if \<not> available s \<and> millis s < timeout then waitLoop timeout (delay 10 s) else Some s)"

text \<open>\<^verbatim>\<open>(hi << 8) | lo\<close> on two bytes, computed in \<^verbatim>\<open>int\<close> and stored in a \<^verbatim>\<open>uint16_t\<close>.\<close>

definition be16 :: "u8 \<Rightarrow> u8 \<Rightarrow> u16" where
  "be16 hi lo = word_of_int (push_bit 8 (uint hi) OR uint lo)"

text \<open>The byte swap of one row: \<^verbatim>\<open>for (int j = 0; j < width; j++)\<close>, from \<open>j\<close> on.\<close>

function swapLoop :: "buffer \<Rightarrow> nat \<Rightarrow> nat \<Rightarrow> system \<Rightarrow> system" where
  "swapLoop byteBuffer width j s =
     (if j < width then
        (let temp = peek byteBuffer (j * 2) s;
             s1 = poke byteBuffer (j * 2) (peek byteBuffer (j * 2 + 1) s) s;
             s2 = poke byteBuffer (j * 2 + 1) temp s1
         in swapLoop byteBuffer width (Suc j) s2)
      else s)"
  by pat_completeness auto
termination swapLoop
  by (relation "measure (\<lambda>(byteBuffer, width, j, s). width - j)") auto

text \<open>
  \<^verbatim>\<open>for (int row = 0; row < height; row++)\<close> of region \<open>i\<close>, from \<open>row\<close> on.
  \<open>Some e\<close> is the \<^verbatim>\<open>return\<close> out of \<^verbatim>\<open>loop()\<close>, \<open>None\<close> the normal end of the loop.
\<close>

function rowLoop :: "nat \<Rightarrow> nat \<Rightarrow> nat \<Rightarrow> nat \<Rightarrow> system \<Rightarrow> error option \<times> system" where
  "rowLoop i width height row s =
     (if row < height then
        (let byteBuffer = ByteBuffer (2 * (row * width)) in
         case readExactBytes byteBuffer (width * 2) s of (ok, s1) \<Rightarrow>
           if \<not> ok then (Some (FailedRow row i), client_stop s1)
           else rowLoop i width height (Suc row) (swapLoop byteBuffer width 0 s1))
      else (None, s))"
  by pat_completeness auto
termination rowLoop
  by (relation "measure (\<lambda>(i, width, height, row, s). height - row)") auto

text \<open>The body of \<^verbatim>\<open>for (int i = 0; i < numRegions; i++)\<close>: one region.\<close>

definition region :: "nat \<Rightarrow> system \<Rightarrow> error option \<times> system" where
  "region i s =
     (case readExactBytes MetaData 8 s of (ok, s1) \<Rightarrow>
        if \<not> ok then (Some FailedMetadata, client_stop s1)
        else
          let x = be16 (peek MetaData 0 s1) (peek MetaData 1 s1);
              y = be16 (peek MetaData 2 s1) (peek MetaData 3 s1);
              width = be16 (peek MetaData 4 s1) (peek MetaData 5 s1);
              height = be16 (peek MetaData 6 s1) (peek MetaData 7 s1)
          in
            if uint x + uint width > 240 \<or> uint y + uint height > 240 \<or>
               uint width > int MAX_CHUNK_SIZE \<or> uint height > int MAX_CHUNK_SIZE
            then (Some InvalidDimensions, client_stop s1)
            else
              (case rowLoop i (unat width) (unat height) 0 s1 of
                 (Some e, s2) \<Rightarrow> (Some e, s2)
               | (None, s2) \<Rightarrow> (None, yield (pushImage x y width height s2))))"

text \<open>
  The header fields as lines 96 to 99 compute them from \<open>metaData\<close>, and the test of lines
  102 and 103, for stating what \<open>region\<close> does.
\<close>

definition hdr_x :: "system \<Rightarrow> u16" where
  "hdr_x s = be16 (peek MetaData 0 s) (peek MetaData 1 s)"

definition hdr_y :: "system \<Rightarrow> u16" where
  "hdr_y s = be16 (peek MetaData 2 s) (peek MetaData 3 s)"

definition hdr_width :: "system \<Rightarrow> u16" where
  "hdr_width s = be16 (peek MetaData 4 s) (peek MetaData 5 s)"

definition hdr_height :: "system \<Rightarrow> u16" where
  "hdr_height s = be16 (peek MetaData 6 s) (peek MetaData 7 s)"

definition invalid_dimensions :: "system \<Rightarrow> bool" where
  "invalid_dimensions s \<longleftrightarrow>
     uint (hdr_x s) + uint (hdr_width s) > 240 \<or> uint (hdr_y s) + uint (hdr_height s) > 240 \<or>
     uint (hdr_width s) > int MAX_CHUNK_SIZE \<or> uint (hdr_height s) > int MAX_CHUNK_SIZE"

function regionLoop :: "nat \<Rightarrow> nat \<Rightarrow> system \<Rightarrow> error option \<times> system" where
  "regionLoop numRegions i s =
     (if i < numRegions then
        (case region i s of
           (Some e, s1) \<Rightarrow> (Some e, s1)
         | (None, s1) \<Rightarrow> regionLoop numRegions (Suc i) s1)
      else (None, s))"
  by pat_completeness auto
termination regionLoop
  by (relation "measure (\<lambda>(numRegions, i, s). numRegions - i)") auto

text \<open>\<^verbatim>\<open>while (client.available()) client.read();\<close>\<close>

function drainLoop :: "system \<Rightarrow> system" where
  "drainLoop s = (if available s then drainLoop (snd (client_read s)) else s)"
  by pat_completeness auto
termination drainLoop
  by (relation "measure (\<lambda>s. length (incoming s))")
     (auto simp: available_def client_read_def split: list.splits)

text \<open>
  One run of \<^verbatim>\<open>loop()\<close>. The result is \<open>None\<close> when the first wait never ends, and else
  the way the run ended (\<open>Some e\<close>: an early \<^verbatim>\<open>return\<close>; \<open>None\<close>: the end of the function
  body) with the state it leaves.
\<close>

definition loop :: "system \<Rightarrow> (error option \<times> system) option" where
  "loop s =
     (if \<not> connected s then Some (Some NoClient, s)
      else
        (case waitLoop (millis s + 5000) s of
           None \<Rightarrow> None
         | Some s1 \<Rightarrow>
             Some
               (if \<not> available s1 then (Some ClientTimeout, client_stop s1)
                else
                  (case client_read s1 of (numRegions, s2) \<Rightarrow>
                     if numRegions = 0 \<or> numRegions > 100
                     then (Some InvalidNumberOfRegions, client_stop s2)
                     else
                       (case regionLoop (unat numRegions) 0 s2 of
                          (Some e, s3) \<Rightarrow> (Some e, s3)
                        | (None, s3) \<Rightarrow>
                            (None, client_stop (drainLoop (delay 10
                               (client_write [0x4F, 0x4B] s3)))))))))"

subsection \<open>The regions a run enters, and what each writes\<close>

text \<open>
  The iterations of \<^verbatim>\<open>for (int i = 0; i < numRegions; i++)\<close> from \<open>i\<close> on, in order: each
  with its index and the state in which its body starts, that is, in which the header of
  region \<open>i\<close> is due. As in \<open>regionLoop\<close>, the next iteration starts only when the body has
  not returned out of \<^verbatim>\<open>loop()\<close>.
\<close>

function region_starts :: "nat \<Rightarrow> nat \<Rightarrow> system \<Rightarrow> (nat \<times> system) list" where
  "region_starts numRegions i s =
     (if i < numRegions then
        (i, s) #
        (case region i s of
           (Some e, s1) \<Rightarrow> []
         | (None, s1) \<Rightarrow> region_starts numRegions (Suc i) s1)
      else [])"
  by pat_completeness auto
termination region_starts
  by (relation "measure (\<lambda>(numRegions, i, s). numRegions - i)") auto

text \<open>The byte offsets in \<open>updateBuffer\<close> that region \<open>i\<close>, entered in state \<open>s\<close>, writes to.\<close>

definition region_writes :: "nat \<Rightarrow> system \<Rightarrow> nat list" where
  "region_writes i s = drop (length (stores s)) (stores (snd (region i s)))"

subsection \<open>The request format, for comparison\<close>

text \<open>
  What \<^verbatim>\<open>pushImage\<close> reads of a call: the rectangle, and \<open>width * height\<close> pixels from
  the pointer on.
\<close>

type_synonym rectangle = "u16 \<times> u16 \<times> u16 \<times> u16 \<times> u16 list"

definition sink_view :: "pushImage_call \<Rightarrow> rectangle" where
  "sink_view c =
     (img_x c, img_y c, img_w c, img_h c,
      take (unat (img_w c) * unat (img_h c)) (img_data c))"

text \<open>
  The region at the front of a byte string in the request format: four big-endian 16-bit
  fields \<open>x\<close>, \<open>y\<close>, \<open>width\<close>, \<open>height\<close>, then \<open>width * height\<close> pixels of two bytes each,
  row by row, the first byte of a pixel being its high byte. \<open>wire_size\<close> is the number
  of bytes the region takes, \<open>wire_regions n\<close> the first \<open>n\<close> regions in order.
\<close>

definition wire_region :: "u8 list \<Rightarrow> rectangle" where
  "wire_region bs =
     (let width = be16 (bs ! 4) (bs ! 5); height = be16 (bs ! 6) (bs ! 7)
      in (be16 (bs ! 0) (bs ! 1), be16 (bs ! 2) (bs ! 3), width, height,
          map (\<lambda>k. be16 (bs ! (8 + 2 * k)) (bs ! (8 + 2 * k + 1)))
            [0..<unat width * unat height]))"

definition wire_size :: "u8 list \<Rightarrow> nat" where
  "wire_size bs =
     8 + 2 * (unat (be16 (bs ! 4) (bs ! 5)) * unat (be16 (bs ! 6) (bs ! 7)))"

fun wire_regions :: "nat \<Rightarrow> u8 list \<Rightarrow> rectangle list" where
  "wire_regions 0 bs = []"
| "wire_regions (Suc n) bs = wire_region bs # wire_regions n (drop (wire_size bs) bs)"

subsection \<open>Concrete runs\<close>

text \<open>
  A peer that sends one byte at once and the next two a second later, on a device whose
  first \<^verbatim>\<open>yield()\<close> takes a full second.
\<close>

definition slow_peer :: system where
  "slow_peer = \<lparr>clock = 0, elapse = [1000], connected = True,
     incoming = [(0, 0xAB), (1000, 0xCD), (1000, 0xEF)],
     sent = [], stopped = False, metaData = replicate 8 0,
     updateBuffer = replicate 2048 0, stores = [], overrun = False, tft = []\<rparr>"

text \<open>
  The request of one region of 2 by 1 pixels at the origin, all of it arrived when
  \<^verbatim>\<open>loop()\<close> starts at boot time, on a device whose buffers hold zeros.
\<close>

definition one_region :: system where
  "one_region = \<lparr>clock = 0, elapse = [], connected = True,
     incoming = map (Pair 0) [1, 0, 0, 0, 0, 0, 2, 0, 1, 0x00, 0xFF, 0x12, 0x34],
     sent = [], stopped = False, metaData = replicate 8 0,
     updateBuffer = replicate 2048 0, stores = [], overrun = False, tft = []\<rparr>"

text \<open>The same, once the region count has been read.\<close>

definition after_count :: system where
  "after_count = one_region\<lparr>incoming := tl (incoming one_region)\<rparr>"

text \<open>
  Two more streams at the point where a region header is due: a header that reaches past
  the right edge, \<open>(230, 0, 32, 1)\<close>, and one of width zero, \<open>(5, 7, 0, 3)\<close>.
\<close>

definition past_the_edge :: system where
  "past_the_edge = after_count\<lparr>incoming := map (Pair 0) [0, 230, 0, 0, 0, 32, 0, 1]\<rparr>"

definition no_width :: system where
  "no_width = after_count\<lparr>incoming := map (Pair 0) [0, 5, 0, 7, 0, 0, 0, 3]\<rparr>"

section \<open>Properties\<close>

subsection \<open>Termination of \<^verbatim>\<open>readExactBytes\<close>\<close>

text \<open>The clock \<^verbatim>\<open>millis()\<close> reads is the real time modulo \<open>2 ^ 32\<close>.\<close>

lemma unat_millis: "unat (millis s) = clock s mod 2 ^ 32"
  by (simp add: millis_def unat_of_nat)

lemma millis_step:
  assumes "millis s < timeout" and "clock s' = Suc (clock s)"
  shows "unat timeout - unat (millis s') < unat timeout - unat (millis s)"
proof -
  have lt: "clock s mod 2 ^ 32 < unat timeout"
    using assms(1) by (simp add: word_less_nat_alt unat_millis)
  have "unat timeout < 2 ^ 32"
    using unsigned_less [of timeout] by simp
  with lt have "Suc (clock s mod 2 ^ 32) \<noteq> 2 ^ 32"
    by linarith
  then have "Suc (clock s) mod 2 ^ 32 = Suc (clock s mod 2 ^ 32)"
    by (simp add: mod_Suc)
  with lt show ?thesis
    by (simp add: unat_millis assms(2))
qed

text \<open>
  Every round of the loop either uses up an entry of \<open>elapse\<close> or moves \<^verbatim>\<open>millis()\<close> one
  step closer to \<open>timeout\<close>.
\<close>

termination readLoop
proof (relation "measures [\<lambda>(buffer, len, timeout, received, s). length (elapse s),
                           \<lambda>(buffer, len, timeout, received, s). unat timeout - unat (millis s)]",
       goal_cases)
  case 1
  show ?case by simp
next
  case (2 buffer len timeout received s b s1)
  have "clock (poke buffer received b s1) = clock s"
    and "elapse (poke buffer received b s1) = elapse s"
    using 2(3) by (auto simp: poke_def client_read_def split: list.splits buffer.splits if_splits)
  then show ?case
    using millis_step [of s timeout "yield (poke buffer received b s1)"] 2(1)
    by (auto simp: yield_def split: list.splits)
next
  case (3 buffer len timeout received s)
  then show ?case
    using millis_step [of s timeout "yield s"]
    by (auto simp: yield_def split: list.splits)
qed

declare readLoop.simps [simp del]
declare swapLoop.simps [simp del]
declare rowLoop.simps [simp del]
declare regionLoop.simps [simp del]
declare drainLoop.simps [simp del]
declare region_starts.simps [simp del]

subsection \<open>What each runtime call leaves alone\<close>

lemma yield_frame [simp]:
  "connected (yield s) = connected s" "incoming (yield s) = incoming s"
  "sent (yield s) = sent s" "stopped (yield s) = stopped s"
  "metaData (yield s) = metaData s" "updateBuffer (yield s) = updateBuffer s"
  "stores (yield s) = stores s" "overrun (yield s) = overrun s" "tft (yield s) = tft s"
  by (simp_all add: yield_def split: list.splits)

lemma clock_yield: "clock s \<le> clock (yield s)"
  by (simp add: yield_def split: list.splits)

lemma delay_frame [simp]:
  "clock (delay ms s) = clock s + ms" "elapse (delay ms s) = elapse s"
  "connected (delay ms s) = connected s" "incoming (delay ms s) = incoming s"
  "sent (delay ms s) = sent s" "stopped (delay ms s) = stopped s"
  "metaData (delay ms s) = metaData s" "updateBuffer (delay ms s) = updateBuffer s"
  "stores (delay ms s) = stores s" "overrun (delay ms s) = overrun s" "tft (delay ms s) = tft s"
  by (simp_all add: delay_def)

lemma client_read_frame [simp]:
  "clock (snd (client_read s)) = clock s" "elapse (snd (client_read s)) = elapse s"
  "connected (snd (client_read s)) = connected s"
  "sent (snd (client_read s)) = sent s" "stopped (snd (client_read s)) = stopped s"
  "metaData (snd (client_read s)) = metaData s"
  "updateBuffer (snd (client_read s)) = updateBuffer s"
  "stores (snd (client_read s)) = stores s" "overrun (snd (client_read s)) = overrun s"
  "tft (snd (client_read s)) = tft s"
  by (simp_all add: client_read_def split: list.splits)

lemma client_read_available:
  "available s \<Longrightarrow>
     client_read s = (snd (hd (incoming s)), s\<lparr>incoming := tl (incoming s)\<rparr>)"
  by (auto simp: available_def client_read_def split: list.splits)

lemma available_nonempty: "available s \<Longrightarrow> incoming s \<noteq> []"
  by (auto simp: available_def)

lemma client_stop_frame [simp]:
  "clock (client_stop s) = clock s" "elapse (client_stop s) = elapse s"
  "connected (client_stop s) = connected s" "incoming (client_stop s) = incoming s"
  "sent (client_stop s) = sent s" "stopped (client_stop s) = True"
  "metaData (client_stop s) = metaData s" "updateBuffer (client_stop s) = updateBuffer s"
  "stores (client_stop s) = stores s" "overrun (client_stop s) = overrun s"
  "tft (client_stop s) = tft s"
  by (simp_all add: client_stop_def)

lemma client_write_frame [simp]:
  "clock (client_write bs s) = clock s" "elapse (client_write bs s) = elapse s"
  "connected (client_write bs s) = connected s" "incoming (client_write bs s) = incoming s"
  "sent (client_write bs s) = sent s @ bs" "stopped (client_write bs s) = stopped s"
  "metaData (client_write bs s) = metaData s"
  "updateBuffer (client_write bs s) = updateBuffer s"
  "stores (client_write bs s) = stores s" "overrun (client_write bs s) = overrun s"
  "tft (client_write bs s) = tft s"
  by (simp_all add: client_write_def)

lemma pushImage_frame [simp]:
  "clock (pushImage x y w h s) = clock s" "elapse (pushImage x y w h s) = elapse s"
  "connected (pushImage x y w h s) = connected s" "incoming (pushImage x y w h s) = incoming s"
  "sent (pushImage x y w h s) = sent s" "stopped (pushImage x y w h s) = stopped s"
  "metaData (pushImage x y w h s) = metaData s"
  "updateBuffer (pushImage x y w h s) = updateBuffer s"
  "stores (pushImage x y w h s) = stores s" "overrun (pushImage x y w h s) = overrun s"
  by (simp_all add: pushImage_def)

lemma poke_frame [simp]:
  "clock (poke buffer i v s) = clock s" "elapse (poke buffer i v s) = elapse s"
  "connected (poke buffer i v s) = connected s" "incoming (poke buffer i v s) = incoming s"
  "sent (poke buffer i v s) = sent s" "stopped (poke buffer i v s) = stopped s"
  "tft (poke buffer i v s) = tft s"
  "length (metaData (poke buffer i v s)) = length (metaData s)"
  "length (updateBuffer (poke buffer i v s)) = length (updateBuffer s)"
  by (simp_all add: poke_def split: buffer.splits)

lemma poke_MetaData [simp]:
  "updateBuffer (poke MetaData i v s) = updateBuffer s"
  "stores (poke MetaData i v s) = stores s"
  "i < length (metaData s) \<Longrightarrow> metaData (poke MetaData i v s) = (metaData s)[i := v]"
  "i < length (metaData s) \<Longrightarrow> overrun (poke MetaData i v s) = overrun s"
  by (simp_all add: poke_def)

lemma poke_ByteBuffer [simp]:
  "metaData (poke (ByteBuffer base) i v s) = metaData s"
  "stores (poke (ByteBuffer base) i v s) = stores s @ [base + i]"
  "base + i < length (updateBuffer s) \<Longrightarrow>
     updateBuffer (poke (ByteBuffer base) i v s) = (updateBuffer s)[base + i := v]"
  "base + i < length (updateBuffer s) \<Longrightarrow> overrun (poke (ByteBuffer base) i v s) = overrun s"
  by (simp_all add: poke_def)

subsection \<open>The read loop\<close>

lemma readLoop_stop:
  "\<not> (received < len \<and> millis s < timeout) \<Longrightarrow>
     readLoop buffer len timeout received s = (received, s)"
  by (subst readLoop.simps) auto

lemma readLoop_take:
  "received < len \<Longrightarrow> millis s < timeout \<Longrightarrow> available s \<Longrightarrow>
     readLoop buffer len timeout received s =
     readLoop buffer len timeout (Suc received)
       (yield (poke buffer received (fst (client_read s)) (snd (client_read s))))"
  by (subst readLoop.simps) (simp add: case_prod_unfold)

lemma readLoop_idle:
  "received < len \<Longrightarrow> millis s < timeout \<Longrightarrow> \<not> available s \<Longrightarrow>
     readLoop buffer len timeout received s = readLoop buffer len timeout received (yield s)"
  by (subst readLoop.simps) simp

lemma client_read_taken:
  "available s \<Longrightarrow> fst (client_read s) = snd (hd (incoming s))"
  "available s \<Longrightarrow> incoming (snd (client_read s)) = tl (incoming s)"
  by (auto simp: available_def client_read_def split: list.splits)

lemma readLoop_cases [case_names stop take idle]:
  assumes "\<And>buffer len timeout received s.
             \<not> (received < len \<and> millis s < timeout) \<Longrightarrow> P buffer len timeout received s"
    and "\<And>buffer len timeout received s.
           received < len \<Longrightarrow> millis s < timeout \<Longrightarrow> available s \<Longrightarrow>
           P buffer len timeout (Suc received)
             (yield (poke buffer received (fst (client_read s)) (snd (client_read s)))) \<Longrightarrow>
           P buffer len timeout received s"
    and "\<And>buffer len timeout received s.
           received < len \<Longrightarrow> millis s < timeout \<Longrightarrow> \<not> available s \<Longrightarrow>
           P buffer len timeout received (yield s) \<Longrightarrow> P buffer len timeout received s"
  shows "P buffer len timeout received s"
proof (induction buffer len timeout received s rule: readLoop.induct)
  case (1 buffer len timeout received s)
  show ?case
  proof (cases "received < len \<and> millis s < timeout")
    case False
    then show ?thesis by (rule assms(1))
  next
    case go: True
    show ?thesis
    proof (cases "available s")
      case True
      have "P buffer len timeout (Suc received)
              (yield (poke buffer received (fst (client_read s)) (snd (client_read s))))"
        by (rule "1.IH"(1) [OF go True]) simp
      with go True show ?thesis by (rule_tac assms(2)) simp_all
    next
      case False
      from go False have "P buffer len timeout received (yield s)" by (rule "1.IH"(2))
      with go False show ?thesis by (rule_tac assms(3)) simp_all
    qed
  qed
qed

lemma readLoop_frame [simp]:
  "connected (snd (readLoop buffer len timeout received s)) = connected s"
  "sent (snd (readLoop buffer len timeout received s)) = sent s"
  "stopped (snd (readLoop buffer len timeout received s)) = stopped s"
  "tft (snd (readLoop buffer len timeout received s)) = tft s"
  "length (metaData (snd (readLoop buffer len timeout received s))) = length (metaData s)"
  "length (updateBuffer (snd (readLoop buffer len timeout received s))) = length (updateBuffer s)"
  by (induction buffer len timeout received s rule: readLoop_cases;
      simp add: readLoop_stop readLoop_take readLoop_idle)+

lemma readLoop_received:
  "received \<le> fst (readLoop buffer len timeout received s)"
  "received \<le> len \<Longrightarrow> fst (readLoop buffer len timeout received s) \<le> len"
  by (induction buffer len timeout received s rule: readLoop_cases;
      simp add: readLoop_stop readLoop_take readLoop_idle)+


lemma readLoop_clock:
  "clock s \<le> clock (snd (readLoop buffer len timeout received s))"
proof (induction buffer len timeout received s rule: readLoop_cases)
  case (stop buffer len timeout received s)
  then show ?case by (simp add: readLoop_stop)
next
  case (take buffer len timeout received s)
  then show ?case
    using clock_yield [of "poke buffer received (fst (client_read s)) (snd (client_read s))"]
    by (simp add: readLoop_take)
next
  case (idle buffer len timeout received s)
  then show ?case
    using clock_yield [of s] by (simp add: readLoop_idle)
qed

text \<open>The bytes taken are the next ones of the stream, in order.\<close>

lemma readLoop_incoming:
  "fst (readLoop buffer len timeout received s) - received \<le> length (incoming s) \<and>
   incoming (snd (readLoop buffer len timeout received s)) =
     drop (fst (readLoop buffer len timeout received s) - received) (incoming s)"
proof (induction buffer len timeout received s rule: readLoop_cases)
  case (stop buffer len timeout received s)
  then show ?case by (simp add: readLoop_stop)
next
  case (take buffer len timeout received s)
  let ?s2 = "yield (poke buffer received (fst (client_read s)) (snd (client_read s)))"
  have ne: "incoming s \<noteq> []"
    using take.hyps(3) by (rule available_nonempty)
  have inc: "incoming (snd (client_read s)) = tl (incoming s)"
    using take.hyps(3) by (rule client_read_taken)
  define r' where "r' = fst (readLoop buffer len timeout (Suc received) ?s2)"
  have "Suc received \<le> r'"
    unfolding r'_def by (rule readLoop_received)
  then obtain n where r': "r' = Suc received + n"
    using le_Suc_ex by blast
  from take.IH have n: "n \<le> length (tl (incoming s))"
    and dr: "incoming (snd (readLoop buffer len timeout (Suc received) ?s2)) = drop n (tl (incoming s))"
    by (simp_all add: inc r' flip: r'_def)
  have eq: "readLoop buffer len timeout received s = readLoop buffer len timeout (Suc received) ?s2"
    using take.hyps by (rule readLoop_take)
  have "r' - received = Suc n"
    by (simp add: r')
  moreover have "Suc n \<le> length (incoming s)"
    using n ne by (cases "incoming s") simp_all
  moreover have "drop n (tl (incoming s)) = drop (Suc n) (incoming s)"
    by (simp add: drop_Suc)
  ultimately show ?case
    by (simp add: eq dr flip: r'_def)
next
  case (idle buffer len timeout received s)
  then show ?case by (simp add: readLoop_idle)
qed

lemma array_simps [simp]:
  "array MetaData s = metaData s" "array (ByteBuffer base) s = updateBuffer s"
  "origin MetaData = 0" "origin (ByteBuffer base) = base"
  by (simp_all add: array_def origin_def)

lemma array_frame [simp]:
  "array buffer (yield s) = array buffer s"
  "array buffer (snd (client_read s)) = array buffer s"
  "length (array buffer (poke buffer' i v s)) = length (array buffer s)"
  by (simp_all add: array_def split: buffer.splits)

lemma array_poke:
  "origin buffer + i < length (array buffer s) \<Longrightarrow>
     array buffer (poke buffer i v s) = (array buffer s)[origin buffer + i := v]"
  "origin buffer + i < length (array buffer s) \<Longrightarrow> overrun (poke buffer i v s) = overrun s"
  by (cases buffer; simp)+

lemma peek_array:
  "origin buffer + i < length (array buffer s) \<Longrightarrow>
     peek buffer i s = array buffer s ! (origin buffer + i)"
  by (cases buffer) (simp_all add: peek_def)

lemma length_array_readLoop [simp]:
  "length (array buffer (snd (readLoop buffer' len timeout received s))) = length (array buffer s)"
  by (cases buffer) simp_all

text \<open>
  Where the bytes land: byte \<open>k\<close> taken by the loop is stored at index \<open>received + k\<close> of the
  array the pointer was made from, and nothing else in it changes.
\<close>

lemma readLoop_array:
  "origin buffer + len \<le> length (array buffer s) \<Longrightarrow> received \<le> len \<Longrightarrow>
     overrun (snd (readLoop buffer len timeout received s)) = overrun s \<and>
     (\<forall>a < length (array buffer s).
        array buffer (snd (readLoop buffer len timeout received s)) ! a =
          (if origin buffer + received \<le> a \<and>
              a < origin buffer + fst (readLoop buffer len timeout received s)
           then snd (incoming s ! (a - (origin buffer + received)))
           else array buffer s ! a))"
proof (induction buffer len timeout received s rule: readLoop_cases)
  case (stop buffer len timeout received s)
  then show ?case by (auto simp add: readLoop_stop)
next
  case (take buffer len timeout received s)
  let ?b = "fst (client_read s)"
  let ?s2 = "yield (poke buffer received ?b (snd (client_read s)))"
  let ?o = "origin buffer"
  define r' where "r' = fst (readLoop buffer len timeout (Suc received) ?s2)"
  define s' where "s' = snd (readLoop buffer len timeout (Suc received) ?s2)"
  have eq: "readLoop buffer len timeout received s = (r', s')"
    using take.hyps by (simp add: readLoop_take r'_def s'_def)
  have in_range: "?o + received < length (array buffer s)"
    using take.prems(1) take.hyps(1) by simp
  have arr2: "array buffer (poke buffer received v (snd (client_read s))) =
      (array buffer s)[?o + received := v]" for v
    using in_range by (simp add: array_poke)
  have ov2: "overrun ?s2 = overrun s"
    using in_range by (simp add: array_poke)
  have ne: "incoming s \<noteq> []"
    using take.hyps(3) by (rule available_nonempty)
  have b: "?b = snd (incoming s ! 0)"
    using take.hyps(3) ne by (simp add: client_read_taken hd_conv_nth)
  have inc2: "incoming (snd (client_read s)) = tl (incoming s)"
    using take.hyps(3) by (rule client_read_taken)
  have ge: "Suc received \<le> r'"
    unfolding r'_def by (rule readLoop_received)
  have avail: "r' - Suc received \<le> length (tl (incoming s))"
    using readLoop_incoming [of buffer len timeout "Suc received" ?s2]
    by (simp add: inc2 flip: r'_def)
  have IH: "overrun s' = overrun ?s2"
    "\<And>a. a < length (array buffer s) \<Longrightarrow>
       array buffer s' ! a =
         (if ?o + Suc received \<le> a \<and> a < ?o + r'
          then snd (incoming ?s2 ! (a - (?o + Suc received)))
          else array buffer ?s2 ! a)"
    using take.IH take.prems(1) take.hyps(1) by (simp_all add: r'_def s'_def)
  have "array buffer s' ! a =
          (if ?o + received \<le> a \<and> a < ?o + r'
           then snd (incoming s ! (a - (?o + received))) else array buffer s ! a)"
    if a: "a < length (array buffer s)" for a
  proof (cases "?o + Suc received \<le> a \<and> a < ?o + r'")
    case True
    then have "a - (?o + Suc received) < length (tl (incoming s))"
      using avail by linarith
    then have "tl (incoming s) ! (a - (?o + Suc received)) = incoming s ! Suc (a - (?o + Suc received))"
      by (rule nth_tl)
    moreover have "Suc (a - (?o + Suc received)) = a - (?o + received)"
      using True by linarith
    ultimately show ?thesis
      using True IH(2) [OF a] by (simp add: inc2)
  next
    case False
    show ?thesis
    proof (cases "a = ?o + received")
      case True
      with IH(2) [OF a] in_range ge show ?thesis
        by (simp add: arr2 b)
    next
      case False
      with \<open>\<not> (?o + Suc received \<le> a \<and> a < ?o + r')\<close> IH(2) [OF a] ge show ?thesis
        by (auto simp add: arr2)
    qed
  qed
  with IH(1) ov2 show ?case
    by (simp add: eq)
next
  case (idle buffer len timeout received s)
  then show ?case by (simp add: readLoop_idle)
qed

lemma readLoop_other_aux:
  "(buffer = MetaData \<longrightarrow>
      updateBuffer (snd (readLoop buffer len timeout received s)) = updateBuffer s \<and>
      stores (snd (readLoop buffer len timeout received s)) = stores s) \<and>
   (\<forall>base. buffer = ByteBuffer base \<longrightarrow>
      metaData (snd (readLoop buffer len timeout received s)) = metaData s \<and>
      stores (snd (readLoop buffer len timeout received s)) =
        stores s @ map (\<lambda>k. base + k) [received..<fst (readLoop buffer len timeout received s)])"
proof (induction buffer len timeout received s rule: readLoop_cases)
  case (stop buffer len timeout received s)
  then show ?case by (auto simp add: readLoop_stop)
next
  case (take buffer len timeout received s)
  let ?s2 = "yield (poke buffer received (fst (client_read s)) (snd (client_read s)))"
  have "Suc received \<le> fst (readLoop buffer len timeout (Suc received) ?s2)"
    by (rule readLoop_received)
  then have "[received..<fst (readLoop buffer len timeout (Suc received) ?s2)] =
      received # [Suc received..<fst (readLoop buffer len timeout (Suc received) ?s2)]"
    by (simp add: upt_conv_Cons)
  with take show ?case
    by (auto simp add: readLoop_take)
next
  case (idle buffer len timeout received s)
  then show ?case by (simp add: readLoop_idle)
qed

lemma readLoop_other [simp]:
  "updateBuffer (snd (readLoop MetaData len timeout received s)) = updateBuffer s"
  "stores (snd (readLoop MetaData len timeout received s)) = stores s"
  "metaData (snd (readLoop (ByteBuffer base) len timeout received s)) = metaData s"
  using readLoop_other_aux [of MetaData len timeout received s]
    readLoop_other_aux [of "ByteBuffer base" len timeout received s]
  by simp_all

lemma readLoop_stores:
  "stores (snd (readLoop (ByteBuffer base) len timeout received s)) =
     stores s @ map (\<lambda>k. base + k)
       [received..<fst (readLoop (ByteBuffer base) len timeout received s)]"
  using readLoop_other_aux [of "ByteBuffer base" len timeout received s] by simp

subsection \<open>\<^verbatim>\<open>readExactBytes\<close> as a whole\<close>

lemma readExactBytes_eq:
  "readExactBytes buffer len s =
     (fst (readLoop buffer len (millis s + 1000) 0 s) = len,
      snd (readLoop buffer len (millis s + 1000) 0 s))"
  by (simp add: readExactBytes_def case_prod_unfold Let_def)

lemma readExactBytes_frame [simp]:
  "connected (snd (readExactBytes buffer len s)) = connected s"
  "sent (snd (readExactBytes buffer len s)) = sent s"
  "stopped (snd (readExactBytes buffer len s)) = stopped s"
  "tft (snd (readExactBytes buffer len s)) = tft s"
  "length (metaData (snd (readExactBytes buffer len s))) = length (metaData s)"
  "length (updateBuffer (snd (readExactBytes buffer len s))) = length (updateBuffer s)"
  "updateBuffer (snd (readExactBytes MetaData len s)) = updateBuffer s"
  "stores (snd (readExactBytes MetaData len s)) = stores s"
  "metaData (snd (readExactBytes (ByteBuffer base) len s)) = metaData s"
  by (simp_all add: readExactBytes_eq)

text \<open>A call that returns \<open>true\<close> took exactly \<open>len\<close> bytes and stored them in order.\<close>

lemma readExactBytes_true:
  assumes "fst (readExactBytes buffer len s)"
  shows "len \<le> length (incoming s)"
    and "incoming (snd (readExactBytes buffer len s)) = drop len (incoming s)"
    and "origin buffer + len \<le> length (array buffer s) \<Longrightarrow>
           overrun (snd (readExactBytes buffer len s)) = overrun s"
    and "origin buffer + len \<le> length (array buffer s) \<Longrightarrow> a < length (array buffer s) \<Longrightarrow>
           array buffer (snd (readExactBytes buffer len s)) ! a =
             (if origin buffer \<le> a \<and> a < origin buffer + len
              then snd (incoming s ! (a - origin buffer)) else array buffer s ! a)"
proof -
  have len: "fst (readLoop buffer len (millis s + 1000) 0 s) = len"
    using assms by (simp add: readExactBytes_eq)
  show "len \<le> length (incoming s)"
    and "incoming (snd (readExactBytes buffer len s)) = drop len (incoming s)"
    using readLoop_incoming [of buffer len "millis s + 1000" 0 s]
    by (simp_all add: len readExactBytes_eq)
  show "overrun (snd (readExactBytes buffer len s)) = overrun s"
    if "origin buffer + len \<le> length (array buffer s)"
    using readLoop_array [of buffer len s 0 "millis s + 1000"] that
    by (simp add: readExactBytes_eq)
  show "array buffer (snd (readExactBytes buffer len s)) ! a =
             (if origin buffer \<le> a \<and> a < origin buffer + len
              then snd (incoming s ! (a - origin buffer)) else array buffer s ! a)"
    if "origin buffer + len \<le> length (array buffer s)" "a < length (array buffer s)"
    using readLoop_array [of buffer len s 0 "millis s + 1000"] that
    by (simp add: readExactBytes_eq len)
qed

text \<open>Whatever it returns, it took at most \<open>len\<close> bytes, from the front of the stream.\<close>

lemma readExactBytes_incoming:
  "\<exists>n \<le> len. n \<le> length (incoming s) \<and>
     incoming (snd (readExactBytes buffer len s)) = drop n (incoming s)"
  using readLoop_incoming [of buffer len "millis s + 1000" 0 s]
    readLoop_received(2) [of 0 len buffer "millis s + 1000" s]
  by (auto simp add: readExactBytes_eq)

lemma readExactBytes_overrun:
  "origin buffer + len \<le> length (array buffer s) \<Longrightarrow>
     overrun (snd (readExactBytes buffer len s)) = overrun s"
  using readLoop_array [of buffer len s 0 "millis s + 1000"]
  by (simp add: readExactBytes_eq)

lemma readExactBytes_stores:
  "\<exists>n \<le> len. stores (snd (readExactBytes (ByteBuffer base) len s)) =
     stores s @ map (\<lambda>k. base + k) [0..<n]"
  using readLoop_stores [of base len "millis s + 1000" 0 s]
    readLoop_received(2) [of 0 len "ByteBuffer base" "millis s + 1000" s]
  by (auto simp add: readExactBytes_eq)

text \<open>A row length of zero: the loop is not entered and the call returns \<open>true\<close>.\<close>

lemma readExactBytes_zero: "readExactBytes buffer 0 s = (True, s)"
  by (simp add: readExactBytes_eq readLoop_stop)

subsection \<open>The byte swap\<close>

lemma swapLoop_stop: "\<not> j < width \<Longrightarrow> swapLoop byteBuffer width j s = s"
  by (subst swapLoop.simps) simp

lemma swapLoop_step:
  "j < width \<Longrightarrow>
     swapLoop byteBuffer width j s =
     swapLoop byteBuffer width (Suc j)
       (poke byteBuffer (j * 2 + 1) (peek byteBuffer (j * 2) s)
          (poke byteBuffer (j * 2) (peek byteBuffer (j * 2 + 1) s) s))"
  by (subst swapLoop.simps) (simp add: Let_def)

lemma swapLoop_cases [case_names stop step]:
  assumes "\<And>byteBuffer width j s. \<not> j < width \<Longrightarrow> P byteBuffer width j s"
    and "\<And>byteBuffer width j s. j < width \<Longrightarrow>
           P byteBuffer width (Suc j)
             (poke byteBuffer (j * 2 + 1) (peek byteBuffer (j * 2) s)
                (poke byteBuffer (j * 2) (peek byteBuffer (j * 2 + 1) s) s)) \<Longrightarrow>
           P byteBuffer width j s"
  shows "P byteBuffer width j s"
proof (induction byteBuffer width j s rule: swapLoop.induct)
  case (1 byteBuffer width j s)
  show ?case
  proof (cases "j < width")
    case False
    then show ?thesis by (rule assms(1))
  next
    case True
    have "P byteBuffer width (Suc j)
            (poke byteBuffer (j * 2 + 1) (peek byteBuffer (j * 2) s)
               (poke byteBuffer (j * 2) (peek byteBuffer (j * 2 + 1) s) s))"
      by (rule "1.IH" [OF True]) simp_all
    with True show ?thesis by (rule assms(2))
  qed
qed

lemma swapLoop_frame [simp]:
  "clock (swapLoop byteBuffer width j s) = clock s"
  "elapse (swapLoop byteBuffer width j s) = elapse s"
  "connected (swapLoop byteBuffer width j s) = connected s"
  "incoming (swapLoop byteBuffer width j s) = incoming s"
  "sent (swapLoop byteBuffer width j s) = sent s"
  "stopped (swapLoop byteBuffer width j s) = stopped s"
  "tft (swapLoop byteBuffer width j s) = tft s"
  "length (metaData (swapLoop byteBuffer width j s)) = length (metaData s)"
  "length (updateBuffer (swapLoop byteBuffer width j s)) = length (updateBuffer s)"
  by (induction byteBuffer width j s rule: swapLoop_cases;
      simp add: swapLoop_stop swapLoop_step)+

lemma swapLoop_metaData [simp]:
  "metaData (swapLoop (ByteBuffer base) width j s) = metaData s"
proof -
  have "\<forall>base. byteBuffer = ByteBuffer base \<longrightarrow> metaData (swapLoop byteBuffer width j s) = metaData s"
    for byteBuffer
    by (induction byteBuffer width j s rule: swapLoop_cases)
       (simp_all add: swapLoop_stop swapLoop_step)
  then show ?thesis by simp
qed

text \<open>The addresses the swap of a row writes: both bytes of each of its pixels.\<close>

lemma swapLoop_stores:
  "stores (swapLoop (ByteBuffer base) width j s) =
     stores s @ concat (map (\<lambda>k. [base + k * 2, base + (k * 2 + 1)]) [j..<width])"
proof -
  have "\<forall>base. byteBuffer = ByteBuffer base \<longrightarrow>
          stores (swapLoop byteBuffer width j s) =
            stores s @ concat (map (\<lambda>k. [base + k * 2, base + (k * 2 + 1)]) [j..<width])"
    for byteBuffer
    by (induction byteBuffer width j s rule: swapLoop_cases)
       (simp_all add: swapLoop_stop swapLoop_step upt_conv_Cons)
  then show ?thesis by simp
qed

text \<open>
  The swap of a row that lies inside \<open>updateBuffer\<close> exchanges the two bytes of each pixel
  from \<open>j\<close> on and changes nothing else.
\<close>

lemma swapLoop_updateBuffer:
  "base + width * 2 \<le> length (updateBuffer s) \<Longrightarrow>
     overrun (swapLoop (ByteBuffer base) width j s) = overrun s \<and>
     (\<forall>a < length (updateBuffer s).
        updateBuffer (swapLoop (ByteBuffer base) width j s) ! a =
          (if base + j * 2 \<le> a \<and> a < base + width * 2
           then (if even (a - base) then updateBuffer s ! (a + 1) else updateBuffer s ! (a - 1))
           else updateBuffer s ! a))"
proof -
  have "\<forall>base. byteBuffer = ByteBuffer base \<longrightarrow> base + width * 2 \<le> length (updateBuffer s) \<longrightarrow>
     overrun (swapLoop byteBuffer width j s) = overrun s \<and>
     (\<forall>a < length (updateBuffer s).
        updateBuffer (swapLoop byteBuffer width j s) ! a =
          (if base + j * 2 \<le> a \<and> a < base + width * 2
           then (if even (a - base) then updateBuffer s ! (a + 1) else updateBuffer s ! (a - 1))
           else updateBuffer s ! a))"
    for byteBuffer
  proof (induction byteBuffer width j s rule: swapLoop_cases)
    case (stop byteBuffer width j s)
    then show ?case by (auto simp add: swapLoop_stop)
  next
    case (step byteBuffer width j s)
    show ?case
    proof (intro allI impI)
      fix base
      assume bb: "byteBuffer = ByteBuffer base"
        and fits: "base + width * 2 \<le> length (updateBuffer s)"
      let ?m = "updateBuffer s"
      let ?lo = "base + j * 2"
      define s2 where "s2 = poke byteBuffer (j * 2 + 1) (peek byteBuffer (j * 2) s)
                   (poke byteBuffer (j * 2) (peek byteBuffer (j * 2 + 1) s) s)"
      have lo: "?lo + 1 < length ?m"
        using fits step.hyps by linarith
      have m2: "updateBuffer s2 = ?m[?lo := ?m ! (?lo + 1), ?lo + 1 := ?m ! ?lo]"
        using lo by (simp add: s2_def bb peek_def add.assoc)
      have ov2: "overrun s2 = overrun s"
        using lo by (simp add: s2_def bb add.assoc)
      have unfold: "swapLoop byteBuffer width j s = swapLoop byteBuffer width (Suc j) s2"
        unfolding s2_def using step.hyps by (rule swapLoop_step)
      have IH: "overrun (swapLoop byteBuffer width (Suc j) s2) = overrun s2"
        "\<And>a. a < length ?m \<Longrightarrow>
           updateBuffer (swapLoop byteBuffer width (Suc j) s2) ! a =
             (if base + Suc j * 2 \<le> a \<and> a < base + width * 2
              then (if even (a - base) then updateBuffer s2 ! (a + 1)
                    else updateBuffer s2 ! (a - 1))
              else updateBuffer s2 ! a)"
        using step.IH bb fits by (simp_all add: s2_def)
      have "updateBuffer (swapLoop byteBuffer width (Suc j) s2) ! a =
          (if ?lo \<le> a \<and> a < base + width * 2
           then (if even (a - base) then ?m ! (a + 1) else ?m ! (a - 1))
           else ?m ! a)" if a: "a < length ?m" for a
      proof -
        consider "a = ?lo" | "a = ?lo + 1" | "a < ?lo" | "?lo + 2 \<le> a"
          by linarith
        then show ?thesis
        proof cases
          case 1
          then show ?thesis
            using IH(2) [OF a] lo step.hyps by (simp add: m2)
        next
          case 2
          then show ?thesis
            using IH(2) [OF a] lo step.hyps by (simp add: m2)
        next
          case 3
          then show ?thesis
            using IH(2) [OF a] by (simp add: m2)
        next
          case 4
          show ?thesis
          proof (cases "a < base + width * 2")
            case False
            with 4 show ?thesis
              using IH(2) [OF a] by (simp add: m2)
          next
            case True
            show ?thesis
            proof (cases "even (a - base)")
              case even: True
              then have "a + 1 < base + width * 2"
                using True 4 by presburger
              then have "updateBuffer s2 ! (a + 1) = ?m ! (a + 1)"
                using 4 by (simp add: m2)
              with even 4 True show ?thesis
                using IH(2) [OF a] by simp
            next
              case odd: False
              then have "?lo + 3 \<le> a"
                using 4 by presburger
              then have "updateBuffer s2 ! (a - 1) = ?m ! (a - 1)"
                by (simp add: m2)
              with odd 4 True show ?thesis
                using IH(2) [OF a] by simp
            qed
          qed
        qed
      qed
      with IH(1) ov2 show "overrun (swapLoop byteBuffer width j s) = overrun s \<and>
         (\<forall>a < length ?m.
            updateBuffer (swapLoop byteBuffer width j s) ! a =
              (if ?lo \<le> a \<and> a < base + width * 2
               then (if even (a - base) then ?m ! (a + 1) else ?m ! (a - 1))
               else ?m ! a))"
        by (simp add: unfold)
    qed
  qed
  then show "base + width * 2 \<le> length (updateBuffer s) \<Longrightarrow> ?thesis"
    by simp
qed

subsection \<open>One row, and the rows of a region\<close>

text \<open>
  A row that is read in full and swapped: \<open>width * 2\<close> bytes leave the stream, and each
  pixel of the row holds its two bytes in exchanged order.
\<close>

lemma row_filled:
  assumes ok: "fst (readExactBytes (ByteBuffer base) (width * 2) s)"
    and fits: "base + width * 2 \<le> length (updateBuffer s)"
  defines "s2 \<equiv> swapLoop (ByteBuffer base) width 0 (snd (readExactBytes (ByteBuffer base) (width * 2) s))"
  shows "width * 2 \<le> length (incoming s)"
    and "incoming s2 = drop (width * 2) (incoming s)"
    and "overrun s2 = overrun s"
    and "a < length (updateBuffer s) \<Longrightarrow>
           updateBuffer s2 ! a =
             (if base \<le> a \<and> a < base + width * 2
              then (if even (a - base) then snd (incoming s ! (a - base + 1))
                    else snd (incoming s ! (a - base - 1)))
              else updateBuffer s ! a)"
proof -
  let ?s1 = "snd (readExactBytes (ByteBuffer base) (width * 2) s)"
  have fits1: "base + width * 2 \<le> length (updateBuffer ?s1)"
    using fits by simp
  have rd: "a < length (updateBuffer s) \<Longrightarrow>
      updateBuffer ?s1 ! a =
        (if base \<le> a \<and> a < base + width * 2 then snd (incoming s ! (a - base))
         else updateBuffer s ! a)" for a
    using readExactBytes_true(4) [OF ok, of a] fits by simp
  have sw: "a < length (updateBuffer s) \<Longrightarrow>
      updateBuffer s2 ! a =
        (if base \<le> a \<and> a < base + width * 2
         then (if even (a - base) then updateBuffer ?s1 ! (a + 1) else updateBuffer ?s1 ! (a - 1))
         else updateBuffer ?s1 ! a)" for a
    using swapLoop_updateBuffer [OF fits1, of 0] by (simp add: s2_def)
  show "width * 2 \<le> length (incoming s)"
    using readExactBytes_true(1) [OF ok] .
  show "incoming s2 = drop (width * 2) (incoming s)"
    using readExactBytes_true(2) [OF ok] by (simp add: s2_def)
  show "overrun s2 = overrun s"
    using swapLoop_updateBuffer [OF fits1, of 0] readExactBytes_true(3) [OF ok] fits
    by (simp add: s2_def)
  show "updateBuffer s2 ! a =
             (if base \<le> a \<and> a < base + width * 2
              then (if even (a - base) then snd (incoming s ! (a - base + 1))
                    else snd (incoming s ! (a - base - 1)))
              else updateBuffer s ! a)" if a: "a < length (updateBuffer s)"
  proof (cases "base \<le> a \<and> a < base + width * 2")
    case False
    then show ?thesis
      using sw [OF a] rd [OF a] by auto
  next
    case True
    show ?thesis
    proof (cases "even (a - base)")
      case even: True
      then have up: "a + 1 < base + width * 2"
        using True by presburger
      then have "a + 1 < length (updateBuffer s)"
        using fits by linarith
      from rd [OF this] up True have "updateBuffer ?s1 ! (a + 1) = snd (incoming s ! (a - base + 1))"
        by (simp add: Suc_diff_le)
      with even True show ?thesis
        using sw [OF a] by simp
    next
      case odd: False
      then have dn: "base \<le> a - 1" "a - 1 < base + width * 2" "a - 1 < length (updateBuffer s)"
        using True a by presburger+
      from rd [OF dn(3)] dn have "updateBuffer ?s1 ! (a - 1) = snd (incoming s ! (a - base - 1))"
        by simp
      with odd True show ?thesis
        using sw [OF a] by simp
    qed
  qed
qed

lemma rowLoop_stop: "\<not> row < height \<Longrightarrow> rowLoop i width height row s = (None, s)"
  by (subst rowLoop.simps) simp

lemma rowLoop_fail:
  "row < height \<Longrightarrow> \<not> fst (readExactBytes (ByteBuffer (2 * (row * width))) (width * 2) s) \<Longrightarrow>
     rowLoop i width height row s =
       (Some (FailedRow row i),
        client_stop (snd (readExactBytes (ByteBuffer (2 * (row * width))) (width * 2) s)))"
  by (subst rowLoop.simps) (simp add: case_prod_unfold)

lemma rowLoop_step:
  "row < height \<Longrightarrow> fst (readExactBytes (ByteBuffer (2 * (row * width))) (width * 2) s) \<Longrightarrow>
     rowLoop i width height row s =
       rowLoop i width height (Suc row)
         (swapLoop (ByteBuffer (2 * (row * width))) width 0
            (snd (readExactBytes (ByteBuffer (2 * (row * width))) (width * 2) s)))"
  by (subst rowLoop.simps) (simp add: case_prod_unfold Let_def)

lemma rowLoop_cases [case_names stop fail step]:
  fixes P :: "nat \<Rightarrow> nat \<Rightarrow> nat \<Rightarrow> nat \<Rightarrow> system \<Rightarrow> bool"
  assumes "\<And>i width height row s. \<not> row < height \<Longrightarrow> P i width height row s"
    and "\<And>i width height row s. row < height \<Longrightarrow>
           \<not> fst (readExactBytes (ByteBuffer (2 * (row * width))) (width * 2) s) \<Longrightarrow>
           P i width height row s"
    and "\<And>i width height row s. row < height \<Longrightarrow>
           fst (readExactBytes (ByteBuffer (2 * (row * width))) (width * 2) s) \<Longrightarrow>
           P i width height (Suc row)
             (swapLoop (ByteBuffer (2 * (row * width))) width 0
                (snd (readExactBytes (ByteBuffer (2 * (row * width))) (width * 2) s))) \<Longrightarrow>
           P i width height row s"
  shows "P i width height row s"
proof (induction i width height row s rule: rowLoop.induct)
  case (1 i width height row s)
  show ?case
  proof (cases "row < height")
    case False
    then show ?thesis by (rule assms(1))
  next
    case True
    show ?thesis
    proof (cases "fst (readExactBytes (ByteBuffer (2 * (row * width))) (width * 2) s)")
      case False
      with True show ?thesis by (rule assms(2))
    next
      case ok: True
      have "P i width height (Suc row)
             (swapLoop (ByteBuffer (2 * (row * width))) width 0
                (snd (readExactBytes (ByteBuffer (2 * (row * width))) (width * 2) s)))"
        by (rule "1.IH" [OF True refl _ _]) (use ok in \<open>simp_all add: prod_eq_iff\<close>)
      with True ok show ?thesis by (rule assms(3))
    qed
  qed
qed

lemma rowLoop_frame [simp]:
  "connected (snd (rowLoop i width height row s)) = connected s"
  "sent (snd (rowLoop i width height row s)) = sent s"
  "tft (snd (rowLoop i width height row s)) = tft s"
  "metaData (snd (rowLoop i width height row s)) = metaData s"
  "length (updateBuffer (snd (rowLoop i width height row s))) = length (updateBuffer s)"
  by (induction i width height row s rule: rowLoop_cases;
      simp add: rowLoop_stop rowLoop_fail rowLoop_step)+

lemma rowLoop_stopped:
  "stopped (snd (rowLoop i width height row s)) =
     (stopped s \<or> fst (rowLoop i width height row s) \<noteq> None)"
  by (induction i width height row s rule: rowLoop_cases;
      simp add: rowLoop_stop rowLoop_fail rowLoop_step)

lemma rowLoop_error:
  "fst (rowLoop i width height row s) = Some e \<Longrightarrow> \<exists>r. e = FailedRow r i \<and> row \<le> r \<and> r < height"
  by (induction i width height row s rule: rowLoop_cases)
     (auto simp add: rowLoop_stop rowLoop_fail rowLoop_step)

lemma rowLoop_incoming:
  "\<exists>n \<le> (height - row) * (width * 2). n \<le> length (incoming s) \<and>
     incoming (snd (rowLoop i width height row s)) = drop n (incoming s)"
proof (induction i width height row s rule: rowLoop_cases)
  case (stop i width height row s)
  then show ?case by (simp add: rowLoop_stop)
next
  case (fail i width height row s)
  obtain n where n: "n \<le> width * 2" "n \<le> length (incoming s)"
    "incoming (snd (readExactBytes (ByteBuffer (2 * (row * width))) (width * 2) s)) = drop n (incoming s)"
    using readExactBytes_incoming by blast
  have "width * 2 \<le> (height - row) * (width * 2)"
    using fail.hyps(1) by (cases "height - row") simp_all
  with n(1) have "n \<le> (height - row) * (width * 2)"
    by (rule le_trans)
  with n(2,3) show ?case
    unfolding rowLoop_fail [OF fail.hyps] by (intro exI [of _ n]) simp
next
  case (step i width height row s)
  let ?s2 = "swapLoop (ByteBuffer (2 * (row * width))) width 0
                (snd (readExactBytes (ByteBuffer (2 * (row * width))) (width * 2) s))"
  from step.IH obtain n where n: "n \<le> (height - Suc row) * (width * 2)"
    "n \<le> length (incoming ?s2)"
    "incoming (snd (rowLoop i width height (Suc row) ?s2)) = drop n (incoming ?s2)"
    by blast
  have inc2: "incoming (snd (readExactBytes (ByteBuffer (2 * (row * width))) (width * 2) s)) =
      drop (width * 2) (incoming s)"
    and len: "width * 2 \<le> length (incoming s)"
    using readExactBytes_true(1,2) [OF step.hyps(2)] by simp_all
  have "(height - row) * (width * 2) = width * 2 + (height - Suc row) * (width * 2)"
    using step.hyps(1) by (simp add: Suc_diff_Suc flip: mult_Suc)
  with n(1) have 1: "width * 2 + n \<le> (height - row) * (width * 2)"
    by linarith
  have 2: "width * 2 + n \<le> length (incoming s)"
    using n(2) len by (simp add: inc2)
  have 3: "incoming (snd (rowLoop i width height (Suc row) ?s2)) = drop (width * 2 + n) (incoming s)"
    using n(3) by (simp add: inc2 add.commute)
  from 1 2 3 show ?case
    unfolding rowLoop_step [OF step.hyps(1,2)] by (intro exI [of _ "width * 2 + n"]) simp
qed

lemma row_fits:
  assumes "row < height" and "height * width * 2 \<le> n"
  shows "2 * (row * width) + width * 2 \<le> (n::nat)"
proof -
  have "Suc row * width \<le> height * width"
    using assms(1) by (intro mult_le_mono1) simp
  with assms(2) show ?thesis by simp
qed

lemma rowLoop_overrun:
  "height * width * 2 \<le> length (updateBuffer s) \<Longrightarrow>
     overrun (snd (rowLoop i width height row s)) = overrun s"
proof (induction i width height row s rule: rowLoop_cases)
  case (stop i width height row s)
  then show ?case by (simp add: rowLoop_stop)
next
  case (fail i width height row s)
  have "2 * (row * width) + width * 2 \<le> length (updateBuffer s)"
    using fail.hyps(1) fail.prems by (rule row_fits)
  then show ?case
    using readExactBytes_overrun [of "ByteBuffer (2 * (row * width))" "width * 2" s]
    by (simp add: rowLoop_fail fail.hyps)
next
  case (step i width height row s)
  have "2 * (row * width) + width * 2 \<le> length (updateBuffer s)"
    using step.hyps(1) step.prems by (rule row_fits)
  from row_filled(3) [OF step.hyps(2) this] step.IH step.prems show ?case
    by (simp add: rowLoop_step step.hyps)
qed

lemma half_index:
  "(2 * x + k) div 2 = x + k div (2::nat)"
  "(2 * x + k * 2) div 2 = x + (k::nat)"
  "(2 * x + (k * 2 + 1)) div 2 = x + (k::nat)"
  by simp_all

lemma row_stores_pixels: assumes "n \<le> width * 2"
  shows "\<forall>a \<in> set (map (\<lambda>k. 2 * x + k) [0..<n] @ concat (map (\<lambda>k. [2 * x + k * 2, 2 * x + (k * 2 + 1)]) [0..<width])).
     \<exists>j<width. a div 2 = x + j"
proof -
  have "\<exists>j<width. (2 * x + k) div 2 = x + j" if "k < n" for k
  proof (intro exI [of _ "k div 2"] conjI)
    show "k div 2 < width" using that assms by linarith
    show "(2 * x + k) div 2 = x + k div 2" by (rule half_index(1))
  qed
  moreover have "\<exists>j<width. (2 * x + k * 2) div 2 = x + j"
    "\<exists>j<width. (2 * x + (k * 2 + 1)) div 2 = x + j" if "k < width" for k
    using that by (intro exI [of _ k]; simp only: half_index; simp)+
  ultimately show ?thesis
    by (simp only: set_append set_map set_upt set_concat ball_Un ball_simps list.set
          UN_ball_bex_simps image_image) simp
qed


text \<open>
  Every write of the row loop goes to one of the two bytes of a pixel \<open>r * width + j\<close> with
  \<open>row \<le> r < height\<close> and \<open>j < width\<close>.
\<close>

lemma rowLoop_stores:
  "\<exists>new. stores (snd (rowLoop i width height row s)) = stores s @ new \<and>
     (\<forall>a \<in> set new. \<exists>r j. row \<le> r \<and> r < height \<and> j < width \<and> a div 2 = r * width + j)"
proof (induction i width height row s rule: rowLoop_cases)
  case (stop i width height row s)
  then show ?case by (simp add: rowLoop_stop)
next
  case (fail i width height row s)
  obtain n where n: "n \<le> width * 2"
    "stores (snd (readExactBytes (ByteBuffer (2 * (row * width))) (width * 2) s)) =
       stores s @ map (\<lambda>k. 2 * (row * width) + k) [0..<n]"
    using readExactBytes_stores by blast
  have "\<forall>a \<in> set (map (\<lambda>k. 2 * (row * width) + k) [0..<n]). \<exists>j<width. a div 2 = row * width + j"
    using row_stores_pixels [OF n(1), of "row * width"] by simp
  then have "\<forall>a \<in> set (map (\<lambda>k. 2 * (row * width) + k) [0..<n]).
      \<exists>r j. row \<le> r \<and> r < height \<and> j < width \<and> a div 2 = r * width + j"
    using fail.hyps(1) by blast
  with n(2) show ?case
    unfolding rowLoop_fail [OF fail.hyps]
    by (intro exI [of _ "map (\<lambda>k. 2 * (row * width) + k) [0..<n]"]) simp
next
  case (step i width height row s)
  let ?B = "2 * (row * width)"
  let ?s1 = "snd (readExactBytes (ByteBuffer ?B) (width * 2) s)"
  let ?s2 = "swapLoop (ByteBuffer ?B) width 0 ?s1"
  obtain n where n: "n \<le> width * 2"
    "stores ?s1 = stores s @ map (\<lambda>k. ?B + k) [0..<n]"
    using readExactBytes_stores by blast
  define row_stores where "row_stores =
    map (\<lambda>k. ?B + k) [0..<n] @ concat (map (\<lambda>k. [?B + k * 2, ?B + (k * 2 + 1)]) [0..<width])"
  have s2: "stores ?s2 = stores s @ row_stores"
    by (simp add: swapLoop_stores n(2) row_stores_def)
  have here: "\<forall>a \<in> set row_stores. \<exists>j<width. a div 2 = row * width + j"
    unfolding row_stores_def using n(1) by (rule row_stores_pixels)
  from step.IH obtain new where new:
    "stores (snd (rowLoop i width height (Suc row) ?s2)) = stores ?s2 @ new"
    "\<forall>a \<in> set new. \<exists>r j. Suc row \<le> r \<and> r < height \<and> j < width \<and> a div 2 = r * width + j"
    by blast
  have "\<forall>a \<in> set (row_stores @ new).
          \<exists>r j. row \<le> r \<and> r < height \<and> j < width \<and> a div 2 = r * width + j"
  proof
    fix a assume "a \<in> set (row_stores @ new)"
    then consider "a \<in> set row_stores" | "a \<in> set new" by auto
    then show "\<exists>r j. row \<le> r \<and> r < height \<and> j < width \<and> a div 2 = r * width + j"
    proof cases
      case 1
      with here step.hyps(1) show ?thesis by blast
    next
      case 2
      with new(2) obtain r j where "Suc row \<le> r" "r < height" "j < width" "a div 2 = r * width + j"
        by blast
      then show ?thesis
        by (intro exI [of _ r] exI [of _ j]) simp
    qed
  qed
  with new(1) s2 show ?case
    unfolding rowLoop_step [OF step.hyps(1,2)]
    by (intro exI [of _ "row_stores @ new"]) simp
qed

text \<open>
  When the row loop runs to its end, it has taken \<open>width * 2\<close> bytes for each remaining row,
  and pixel \<open>k\<close> of those rows holds the two bytes sent for it, exchanged.
\<close>

lemma rowLoop_filled:
  "fst (rowLoop i width height row s) = None \<Longrightarrow>
   height * width * 2 \<le> length (updateBuffer s) \<Longrightarrow> row \<le> height \<Longrightarrow>
     (height - row) * (width * 2) \<le> length (incoming s) \<and>
     incoming (snd (rowLoop i width height row s)) =
       drop ((height - row) * (width * 2)) (incoming s) \<and>
     (\<forall>a < length (updateBuffer s).
        updateBuffer (snd (rowLoop i width height row s)) ! a =
          (if 2 * (row * width) \<le> a \<and> a < height * width * 2
           then (if even a then snd (incoming s ! (a - 2 * (row * width) + 1))
                 else snd (incoming s ! (a - 2 * (row * width) - 1)))
           else updateBuffer s ! a))"
proof (induction i width height row s rule: rowLoop_cases)
  case (stop i width height row s)
  then have "row = height" by simp
  then show ?case by (auto simp add: rowLoop_stop mult.commute)
next
  case (fail i width height row s)
  then show ?case by (simp add: rowLoop_fail)
next
  case (step i width height row s)
  define B where "B = 2 * (row * width)"
  define W where "W = width * 2"
  define s2 where "s2 = swapLoop (ByteBuffer B) width 0 (snd (readExactBytes (ByteBuffer B) W s))"
  define s' where "s' = snd (rowLoop i width height (Suc row) s2)"
  define n where "n = (height - Suc row) * W"
  let ?m = "updateBuffer s"
  have unfold: "rowLoop i width height row s = rowLoop i width height (Suc row) s2"
    using step.hyps(1,2) unfolding s2_def B_def W_def by (rule rowLoop_step)
  have ok: "fst (readExactBytes (ByteBuffer B) W s)"
    using step.hyps(2) by (simp add: B_def W_def)
  have fits: "B + W \<le> length ?m"
    unfolding B_def W_def using step.hyps(1) step.prems(2) by (rule row_fits)
  have top: "B + W \<le> height * width * 2"
    unfolding B_def W_def using step.hyps(1) by (rule row_fits) simp
  have even_B: "even B" "even W"
    by (simp_all add: B_def W_def)
  have next_B: "2 * (Suc row * width) = B + W"
    by (simp add: B_def W_def)
  have rest: "(height - row) * (width * 2) = W + n"
    using step.hyps(1) by (simp add: n_def W_def Suc_diff_Suc flip: mult_Suc)
  have len: "W \<le> length (incoming s)"
    and inc2: "incoming s2 = drop W (incoming s)"
    and m2: "\<And>a. a < length ?m \<Longrightarrow>
      updateBuffer s2 ! a =
        (if B \<le> a \<and> a < B + W
         then (if even (a - B) then snd (incoming s ! (a - B + 1))
               else snd (incoming s ! (a - B - 1)))
         else ?m ! a)"
    using row_filled [OF ok [unfolded W_def] fits [unfolded W_def]]
    by (simp_all add: s2_def W_def)
  have len2: "length (updateBuffer s2) = length ?m"
    by (simp add: s2_def)
  have p1: "fst (rowLoop i width height (Suc row) s2) = None"
    using step.prems(1) by (simp only: unfold)
  have p2: "height * width * 2 \<le> length (updateBuffer s2)"
    using step.prems(2) by (simp only: len2)
  have p3: "Suc row \<le> height"
    using step.hyps(1) by simp
  note IH0 = step.IH [folded B_def W_def, folded s2_def, OF p1 p2 p3]
  have IH: "n \<le> length (incoming s2)"
    "incoming s' = drop n (incoming s2)"
    "\<And>a. a < length ?m \<Longrightarrow>
       updateBuffer s' ! a =
         (if B + W \<le> a \<and> a < height * width * 2
          then (if even a then snd (incoming s2 ! (a - (B + W) + 1))
                else snd (incoming s2 ! (a - (B + W) - 1)))
          else updateBuffer s2 ! a)"
    using IH0 unfolding next_B n_def s'_def len2 by blast+
  have nth2: "incoming s2 ! k = incoming s ! (W + k)" for k
    using len by (simp add: inc2)
  have 1: "W + n \<le> length (incoming s)"
    using IH(1) len by (simp add: inc2)
  have 2: "incoming s' = drop (W + n) (incoming s)"
    using IH(2) by (simp add: inc2 add.commute)
  have 3: "updateBuffer s' ! a =
      (if B \<le> a \<and> a < height * width * 2
       then (if even a then snd (incoming s ! (a - B + 1)) else snd (incoming s ! (a - B - 1)))
       else ?m ! a)" if a: "a < length ?m" for a
  proof (cases "B + W \<le> a \<and> a < height * width * 2")
    case True
    show ?thesis
    proof (cases "even a")
      case even: True
      have "W + (a - (B + W) + 1) = a - B + 1"
        using True by linarith
      with even True show ?thesis
        using IH(3) [OF a] by (simp add: nth2)
    next
      case odd: False
      then have "B + W < a"
        using True even_B by (metis even_add le_neq_implies_less)
      then have "W + (a - (B + W) - 1) = a - B - 1"
        by linarith
      with odd True show ?thesis
        using IH(3) [OF a] by (simp add: nth2)
    qed
  next
    case False
    then have s2: "updateBuffer s' ! a = updateBuffer s2 ! a"
      unfolding IH(3) [OF a] by (rule if_not_P)
    show ?thesis
    proof (cases "B \<le> a \<and> a < B + W")
      case True
      then have "even (a - B) = even a"
        using even_B(1) by simp
      with True top show ?thesis
        using m2 [OF a] by (simp add: s2)
    next
      case out: False
      with False top show ?thesis
        using m2 [OF a] by (auto simp add: s2)
    qed
  qed
  from 1 2 3 show ?case
    by (simp add: unfold rest B_def flip: s'_def)
qed

subsection \<open>The first wait\<close>

text \<open>The first wait changes nothing but the clock.\<close>

lemma waitLoop_frame:
  "waitLoop timeout s = Some s' \<Longrightarrow> \<exists>ms. s' = delay ms s"
proof (induction rule: waitLoop.raw_induct [rotated 1, consumes 1])
  case (1 waitLoop timeout s s')
  show ?case
  proof (cases "\<not> available s \<and> millis s < timeout")
    case True
    with 1(2) have "waitLoop timeout (delay 10 s) = Some s'" by simp
    from 1(1) [OF this] obtain ms where "s' = delay ms (delay 10 s)" by blast
    then have "s' = delay (10 + ms) s" by (simp add: delay_def)
    then show ?thesis by blast
  next
    case False
    with 1(2) have "s' = s" by auto
    then have "s' = delay 0 s" by (simp add: delay_def)
    then show ?thesis by blast
  qed
qed

lemma waitLoop_exit:
  "waitLoop timeout s = Some s' \<Longrightarrow> available s' \<or> \<not> millis s' < timeout"
proof (induction rule: waitLoop.raw_induct [rotated 1, consumes 1])
  case (1 waitLoop timeout s s')
  then show ?case
    by (cases "\<not> available s \<and> millis s < timeout") auto
qed

lemma unat_millis_delay:
  "unat (millis s) + ms < 2 ^ 32 \<Longrightarrow> unat (millis (delay ms s)) = unat (millis s) + ms"
proof -
  assume small: "unat (millis s) + ms < 2 ^ 32"
  have "(clock s + ms) mod 2 ^ 32 = (clock s mod 2 ^ 32 + ms) mod 2 ^ 32"
    by (simp only: mod_add_left_eq)
  also have "\<dots> = clock s mod 2 ^ 32 + ms"
    using small by (simp only: unat_millis mod_less)
  finally show ?thesis
    by (simp add: unat_millis)
qed

lemma waitLoop_steps:
  "unat (millis s) + 10 * k = unat timeout \<Longrightarrow> \<exists>s'. waitLoop timeout s = Some s'"
proof (induction k arbitrary: s)
  case 0
  then have "\<not> millis s < timeout"
    by (simp add: word_less_nat_alt)
  then show ?case
    by (subst waitLoop.simps) simp
next
  case (Suc k)
  show ?case
  proof (cases "\<not> available s \<and> millis s < timeout")
    case False
    then show ?thesis
      by (subst waitLoop.simps) auto
  next
    case True
    have "unat timeout < 2 ^ 32"
      using unsigned_less [of timeout] by simp
    with Suc.prems have "unat (millis s) + 10 < 2 ^ 32"
      by simp
    then have "unat (millis (delay 10 s)) = unat (millis s) + 10"
      by (rule unat_millis_delay)
    with Suc.prems have "unat (millis (delay 10 s)) + 10 * k = unat timeout"
      by simp
    from Suc.IH [OF this] obtain s' where "waitLoop timeout (delay 10 s) = Some s'"
      by blast
    with True show ?thesis
      by (subst waitLoop.simps) simp
  qed
qed

text \<open>
  With the deadline \<^verbatim>\<open>loop()\<close> computes, the first wait ends: after at most 500 rounds when
  the deadline did not wrap around, at once when it did.
\<close>

lemma unat_5000: "unat (5000 :: 32 word) = 5000"
  by simp

lemma unat_plus_5000: "unat (x + 5000 :: 32 word) = (unat x + 5000) mod 4294967296"
  using unat_word_ariths(1) [of x 5000] by (simp only: unat_5000) simp

lemma deadline_cases:
  fixes x :: "32 word"
  shows "unat x + 5000 < 4294967296 \<Longrightarrow> unat (x + 5000) = unat x + 5000"
    and "\<not> unat x + 5000 < 4294967296 \<Longrightarrow> \<not> x < x + 5000"
proof -
  show "unat (x + 5000) = unat x + 5000" if "unat x + 5000 < 4294967296"
    using that by (simp only: unat_plus_5000 mod_less)
  show "\<not> x < x + 5000" if big: "\<not> unat x + 5000 < 4294967296"
  proof -
    have "unat x < 4294967296"
      using unsigned_less [of x] by simp
    with big have "(unat x + 5000) mod 4294967296 = unat x + 5000 - 4294967296"
      by (subst mod_if) simp
    then have "unat (x + 5000) \<le> unat x"
      using big by (simp only: unat_plus_5000)
    then show ?thesis
      by (simp only: word_less_nat_alt)
  qed
qed


text \<open>
  With the deadline \<^verbatim>\<open>loop()\<close> computes, the first wait ends: after at most 500 rounds when
  the deadline did not wrap around, at once when it did.
\<close>

lemma waitLoop_returns: "\<exists>s'. waitLoop (millis s + 5000) s = Some s'"
proof (cases "unat (millis s) + 5000 < 4294967296")
  case True
  then have "unat (millis s) + 10 * 500 = unat (millis s + 5000)"
    by (simp only: deadline_cases(1))
  then show ?thesis
    by (rule waitLoop_steps)
next
  case False
  then have "\<not> millis s < millis s + 5000"
    by (rule deadline_cases(2))
  then show ?thesis
    by (subst waitLoop.simps) simp
qed

subsection \<open>One region\<close>

lemma region_unfold:
  "region i s =
     (let s1 = snd (readExactBytes MetaData 8 s) in
      if \<not> fst (readExactBytes MetaData 8 s) then (Some FailedMetadata, client_stop s1)
      else if invalid_dimensions s1 then (Some InvalidDimensions, client_stop s1)
      else
        let s2 = snd (rowLoop i (unat (hdr_width s1)) (unat (hdr_height s1)) 0 s1) in
        case fst (rowLoop i (unat (hdr_width s1)) (unat (hdr_height s1)) 0 s1) of
          Some e \<Rightarrow> (Some e, s2)
        | None \<Rightarrow>
            (None, yield (pushImage (hdr_x s1) (hdr_y s1) (hdr_width s1) (hdr_height s1) s2)))"
  by (simp add: region_def Let_def case_prod_unfold invalid_dimensions_def
        hdr_x_def hdr_y_def hdr_width_def hdr_height_def split: option.splits)

lemma region_cases [consumes 0, case_names nometa rejected rowfail painted]:
  fixes i s
  defines "s1 \<equiv> snd (readExactBytes MetaData 8 s)"
  defines "rows \<equiv> rowLoop i (unat (hdr_width s1)) (unat (hdr_height s1)) 0 s1"
  assumes "\<not> fst (readExactBytes MetaData 8 s) \<Longrightarrow>
             region i s = (Some FailedMetadata, client_stop s1) \<Longrightarrow> P"
    and "fst (readExactBytes MetaData 8 s) \<Longrightarrow> invalid_dimensions s1 \<Longrightarrow>
           region i s = (Some InvalidDimensions, client_stop s1) \<Longrightarrow> P"
    and "\<And>e. fst (readExactBytes MetaData 8 s) \<Longrightarrow> \<not> invalid_dimensions s1 \<Longrightarrow>
           fst rows = Some e \<Longrightarrow> region i s = (Some e, snd rows) \<Longrightarrow> P"
    and "fst (readExactBytes MetaData 8 s) \<Longrightarrow> \<not> invalid_dimensions s1 \<Longrightarrow>
           fst rows = None \<Longrightarrow>
           region i s =
             (None, yield (pushImage (hdr_x s1) (hdr_y s1) (hdr_width s1) (hdr_height s1) (snd rows))) \<Longrightarrow> P"
  shows P
proof (cases "fst (readExactBytes MetaData 8 s)")
  case False
  moreover from False have "region i s = (Some FailedMetadata, client_stop s1)"
    by (simp add: region_unfold s1_def Let_def)
  ultimately show ?thesis by (rule assms(3))
next
  case ok: True
  show ?thesis
  proof (cases "invalid_dimensions s1")
    case True
    with ok have "region i s = (Some InvalidDimensions, client_stop s1)"
      by (simp add: region_unfold s1_def Let_def)
    with ok True show ?thesis by (rule assms(4))
  next
    case valid: False
    show ?thesis
    proof (cases "fst rows")
      case None
      with ok valid have "region i s =
          (None, yield (pushImage (hdr_x s1) (hdr_y s1) (hdr_width s1) (hdr_height s1) (snd rows)))"
        by (simp add: region_unfold s1_def rows_def Let_def)
      with ok valid None show ?thesis by (rule assms(6))
    next
      case (Some e)
      with ok valid have "region i s = (Some e, snd rows)"
        by (simp add: region_unfold s1_def rows_def Let_def)
      with ok valid Some show ?thesis by (rule assms(5))
    qed
  qed
qed

lemma uint_le_unat: "uint (w :: 16 word) \<le> int n \<Longrightarrow> unat w \<le> n"
  by (simp only: uint_nat)

lemma valid_dimensions:
  assumes "\<not> invalid_dimensions s"
  shows "uint (hdr_x s) + uint (hdr_width s) \<le> 240" "uint (hdr_y s) + uint (hdr_height s) \<le> 240"
    and "unat (hdr_width s) \<le> 32" "unat (hdr_height s) \<le> 32"
proof -
  from assms have *: "uint (hdr_x s) + uint (hdr_width s) \<le> 240"
    "uint (hdr_y s) + uint (hdr_height s) \<le> 240"
    "uint (hdr_width s) \<le> int 32" "uint (hdr_height s) \<le> int 32"
    unfolding invalid_dimensions_def MAX_CHUNK_SIZE_def by simp_all
  from *(1,2) show "uint (hdr_x s) + uint (hdr_width s) \<le> 240"
    "uint (hdr_y s) + uint (hdr_height s) \<le> 240" .
  from *(3) show "unat (hdr_width s) \<le> 32" by (rule uint_le_unat)
  from *(4) show "unat (hdr_height s) \<le> 32" by (rule uint_le_unat)
qed

lemma accepted_fits:
  assumes "\<not> invalid_dimensions s" and "2048 \<le> n"
  shows "unat (hdr_height s) * unat (hdr_width s) * 2 \<le> (n::nat)"
proof -
  have "unat (hdr_height s) * unat (hdr_width s) \<le> 32 * 32"
    using valid_dimensions(3,4) [OF assms(1)] by (rule mult_le_mono [rotated])
  with assms(2) show ?thesis by simp
qed

lemma region_frame [simp]:
  "connected (snd (region i s)) = connected s"
  "sent (snd (region i s)) = sent s"
  "length (metaData (snd (region i s))) = length (metaData s)"
  "length (updateBuffer (snd (region i s))) = length (updateBuffer s)"
  by (cases rule: region_cases [of s i]; simp)+

lemma region_stopped:
  "stopped (snd (region i s)) = (stopped s \<or> fst (region i s) \<noteq> None)"
  by (cases rule: region_cases [of s i]) (simp_all add: rowLoop_stopped)

lemma region_error:
  "fst (region i s) = Some e \<Longrightarrow>
     e = FailedMetadata \<or> e = InvalidDimensions \<or> (\<exists>row. e = FailedRow row i)"
  by (cases rule: region_cases [of s i]) (auto dest: rowLoop_error)

text \<open>A region that fails paints nothing; one that succeeds paints once, what its header says.\<close>

lemma region_tft_failed:
  "fst (region i s) \<noteq> None \<Longrightarrow> tft (snd (region i s)) = tft s"
  by (cases rule: region_cases [of s i]) simp_all

lemma region_tft_painted:
  assumes "fst (region i s) = None"
  defines "s1 \<equiv> snd (readExactBytes MetaData 8 s)"
  shows "fst (readExactBytes MetaData 8 s)" and "\<not> invalid_dimensions s1"
    and "fst (rowLoop i (unat (hdr_width s1)) (unat (hdr_height s1)) 0 s1) = None"
    and "updateBuffer (snd (region i s)) =
           updateBuffer (snd (rowLoop i (unat (hdr_width s1)) (unat (hdr_height s1)) 0 s1))"
    and "incoming (snd (region i s)) =
           incoming (snd (rowLoop i (unat (hdr_width s1)) (unat (hdr_height s1)) 0 s1))"
    and "tft (snd (region i s)) =
           tft s @ [\<lparr>img_x = hdr_x s1, img_y = hdr_y s1, img_w = hdr_width s1, img_h = hdr_height s1,
                     img_data = pixels (updateBuffer (snd (region i s)))\<rparr>]"
  using assms(1) unfolding s1_def
  by (cases rule: region_cases [of s i]; simp add: pushImage_def)+

text \<open>The header fields are the big-endian values of the eight bytes that were read.\<close>

lemma header_wire:
  assumes "fst (readExactBytes MetaData 8 s)" and "8 \<le> length (metaData s)"
  defines "s1 \<equiv> snd (readExactBytes MetaData 8 s)"
  shows "8 \<le> length (incoming s)" and "incoming s1 = drop 8 (incoming s)"
    and "hdr_x s1 = be16 (snd (incoming s ! 0)) (snd (incoming s ! 1))"
    and "hdr_y s1 = be16 (snd (incoming s ! 2)) (snd (incoming s ! 3))"
    and "hdr_width s1 = be16 (snd (incoming s ! 4)) (snd (incoming s ! 5))"
    and "hdr_height s1 = be16 (snd (incoming s ! 6)) (snd (incoming s ! 7))"
    and "overrun s1 = overrun s"
proof -
  have byte: "peek MetaData k s1 = snd (incoming s ! k)" if "k < 8" for k
  proof -
    have "k < length (metaData s)" using that assms(2) by simp
    then have "metaData s1 ! k = snd (incoming s ! k)"
      using readExactBytes_true(4) [OF assms(1), of k] assms(2) that by (simp add: s1_def)
    with \<open>k < length (metaData s)\<close> show ?thesis
      by (simp add: peek_def s1_def)
  qed
  show "8 \<le> length (incoming s)" "incoming s1 = drop 8 (incoming s)"
    using readExactBytes_true(1,2) [OF assms(1)] by (simp_all add: s1_def)
  show "hdr_x s1 = be16 (snd (incoming s ! 0)) (snd (incoming s ! 1))"
    "hdr_y s1 = be16 (snd (incoming s ! 2)) (snd (incoming s ! 3))"
    "hdr_width s1 = be16 (snd (incoming s ! 4)) (snd (incoming s ! 5))"
    "hdr_height s1 = be16 (snd (incoming s ! 6)) (snd (incoming s ! 7))"
    by (simp_all add: hdr_x_def hdr_y_def hdr_width_def hdr_height_def byte)
  show "overrun s1 = overrun s"
    using readExactBytes_true(3) [OF assms(1)] assms(2) by (simp add: s1_def)
qed

lemma region_overrun:
  assumes "8 \<le> length (metaData s)" and "2048 \<le> length (updateBuffer s)"
  shows "overrun (snd (region i s)) = overrun s"
proof -
  let ?s1 = "snd (readExactBytes MetaData 8 s)"
  have s1: "overrun ?s1 = overrun s"
    using readExactBytes_overrun [of MetaData 8 s] assms(1) by simp
  have rows: "overrun (snd (rowLoop i (unat (hdr_width ?s1)) (unat (hdr_height ?s1)) 0 ?s1)) = overrun s"
    if "\<not> invalid_dimensions ?s1"
    using rowLoop_overrun [of "unat (hdr_height ?s1)" "unat (hdr_width ?s1)" ?s1 i 0]
      accepted_fits [OF that, of "length (updateBuffer ?s1)"] assms(2) s1
    by simp
  show ?thesis
    by (cases rule: region_cases [of s i]) (simp_all add: s1 rows)
qed

text \<open>
  The writes of one region into \<open>updateBuffer\<close>: what \<open>region\<close> appends to the log of
  stores.
\<close>

lemma region_stores_split: "stores (snd (region i s)) = stores s @ region_writes i s"
proof -
  define s1 where "s1 = snd (readExactBytes MetaData 8 s)"
  have s1: "stores s1 = stores s"
    by (simp add: s1_def)
  from rowLoop_stores [of i "unat (hdr_width s1)" "unat (hdr_height s1)" 0 s1]
  obtain new where
    "stores (snd (rowLoop i (unat (hdr_width s1)) (unat (hdr_height s1)) 0 s1)) = stores s1 @ new"
    by blast
  then have rows:
    "stores (snd (rowLoop i (unat (hdr_width s1)) (unat (hdr_height s1)) 0 s1)) = stores s @ new"
    by (simp only: s1)
  have "\<exists>new. stores (snd (region i s)) = stores s @ new"
  proof (cases rule: region_cases [of s i])
    case nometa
    then show ?thesis by simp
  next
    case rejected
    then show ?thesis by simp
  next
    case (rowfail e)
    then have "stores (snd (region i s)) = stores s @ new"
      using rows by (simp add: s1_def)
    then show ?thesis ..
  next
    case painted
    then have "stores (snd (region i s)) = stores s @ new"
      using rows by (simp add: s1_def)
    then show ?thesis ..
  qed
  then obtain new' where "stores (snd (region i s)) = stores s @ new'" ..
  then show ?thesis
    by (simp add: region_writes_def)
qed

text \<open>
  A region that writes anything has read its header in full and accepted it, and writes
  only to bytes of the pixels \<open>row * width + j\<close> of that header's rectangle.
\<close>

lemma region_writes_tied:
  assumes "a \<in> set (region_writes i s)" and "8 \<le> length (metaData s)"
  defines "width \<equiv> unat (be16 (snd (incoming s ! 4)) (snd (incoming s ! 5)))"
  defines "height \<equiv> unat (be16 (snd (incoming s ! 6)) (snd (incoming s ! 7)))"
  shows "fst (readExactBytes MetaData 8 s)" and "width \<le> 32" and "height \<le> 32"
    and "\<exists>row < height. \<exists>j < width. a div 2 = row * width + j"
proof -
  define s1 where "s1 = snd (readExactBytes MetaData 8 s)"
  have s1: "stores s1 = stores s"
    by (simp add: s1_def)
  have rows: "fst (readExactBytes MetaData 8 s) \<and> \<not> invalid_dimensions s1 \<and>
      stores (snd (region i s)) =
        stores (snd (rowLoop i (unat (hdr_width s1)) (unat (hdr_height s1)) 0 s1))"
  proof (cases rule: region_cases [of s i])
    case nometa
    with assms(1) show ?thesis by (simp add: region_writes_def)
  next
    case rejected
    with assms(1) show ?thesis by (simp add: region_writes_def)
  next
    case (rowfail e)
    then show ?thesis by (simp add: s1_def)
  next
    case painted
    then show ?thesis by (simp add: s1_def)
  qed
  then have ok: "fst (readExactBytes MetaData 8 s)" and valid: "\<not> invalid_dimensions s1"
    by blast+
  note hw = header_wire [OF ok assms(2), folded s1_def]
  have dims: "unat (hdr_width s1) = width" "unat (hdr_height s1) = height"
    by (simp_all add: hw width_def height_def)
  from rowLoop_stores [of i width height 0 s1] obtain new where new:
    "stores (snd (rowLoop i width height 0 s1)) = stores s1 @ new"
    "\<forall>a \<in> set new. \<exists>r j. 0 \<le> r \<and> r < height \<and> j < width \<and> a div 2 = r * width + j"
    by blast
  have "region_writes i s = new"
    using rows new(1) by (simp add: region_writes_def dims s1)
  with assms(1) new(2) show "\<exists>row < height. \<exists>j < width. a div 2 = row * width + j"
    by blast
  show "fst (readExactBytes MetaData 8 s)"
    by (rule ok)
  show "width \<le> 32" "height \<le> 32"
    using valid_dimensions(3,4) [OF valid] by (simp_all add: dims)
qed

lemma region_incoming:
  "\<exists>n \<le> length (incoming s). incoming (snd (region i s)) = drop n (incoming s)"
proof -
  let ?s1 = "snd (readExactBytes MetaData 8 s)"
  let ?rows = "rowLoop i (unat (hdr_width ?s1)) (unat (hdr_height ?s1)) 0 ?s1"
  obtain n where n: "n \<le> length (incoming s)" "incoming ?s1 = drop n (incoming s)"
    using readExactBytes_incoming [of 8 s MetaData] by blast
  obtain m where m: "m \<le> length (incoming ?s1)" "incoming (snd ?rows) = drop m (incoming ?s1)"
    using rowLoop_incoming [of "unat (hdr_height ?s1)" 0 "unat (hdr_width ?s1)" ?s1 i] by blast
  have "n + m \<le> length (incoming s)" "incoming (snd ?rows) = drop (n + m) (incoming s)"
    using n m by (simp_all add: add.commute)
  then have rows: "\<exists>k \<le> length (incoming s). incoming (snd ?rows) = drop k (incoming s)"
    by blast
  from n have s1: "\<exists>k \<le> length (incoming s). incoming ?s1 = drop k (incoming s)"
    by blast
  show ?thesis
  proof (cases rule: region_cases [of s i])
    case nometa
    then show ?thesis using s1 by simp
  next
    case rejected
    then show ?thesis using s1 by simp
  next
    case (rowfail e)
    then show ?thesis using rows by simp
  next
    case painted
    then show ?thesis using rows by simp
  qed
qed

subsection \<open>The regions of a session\<close>

lemma regionLoop_stop: "\<not> i < numRegions \<Longrightarrow> regionLoop numRegions i s = (None, s)"
  by (subst regionLoop.simps) simp

lemma regionLoop_abort:
  "i < numRegions \<Longrightarrow> fst (region i s) = Some e \<Longrightarrow>
     regionLoop numRegions i s = (Some e, snd (region i s))"
  by (subst regionLoop.simps) (simp add: case_prod_unfold)

lemma regionLoop_next:
  "i < numRegions \<Longrightarrow> fst (region i s) = None \<Longrightarrow>
     regionLoop numRegions i s = regionLoop numRegions (Suc i) (snd (region i s))"
  by (subst regionLoop.simps) (simp add: case_prod_unfold)

lemma regionLoop_cases [case_names stop abort continue]:
  fixes P :: "nat \<Rightarrow> nat \<Rightarrow> system \<Rightarrow> bool"
  assumes "\<And>numRegions i s. \<not> i < numRegions \<Longrightarrow> P numRegions i s"
    and "\<And>numRegions i s e. i < numRegions \<Longrightarrow> fst (region i s) = Some e \<Longrightarrow> P numRegions i s"
    and "\<And>numRegions i s. i < numRegions \<Longrightarrow> fst (region i s) = None \<Longrightarrow>
           P numRegions (Suc i) (snd (region i s)) \<Longrightarrow> P numRegions i s"
  shows "P numRegions i s"
proof (induction numRegions i s rule: regionLoop.induct)
  case (1 numRegions i s)
  show ?case
  proof (cases "i < numRegions")
    case False
    then show ?thesis by (rule assms(1))
  next
    case True
    show ?thesis
    proof (cases "fst (region i s)")
      case (Some e)
      with True show ?thesis by (rule assms(2))
    next
      case None
      have "P numRegions (Suc i) (snd (region i s))"
        by (rule "1.IH" [OF True surjective_pairing [symmetric] None])
      with True None show ?thesis by (rule assms(3))
    qed
  qed
qed

lemma regionLoop_frame [simp]:
  "connected (snd (regionLoop numRegions i s)) = connected s"
  "sent (snd (regionLoop numRegions i s)) = sent s"
  "length (metaData (snd (regionLoop numRegions i s))) = length (metaData s)"
  "length (updateBuffer (snd (regionLoop numRegions i s))) = length (updateBuffer s)"
  by (induction numRegions i s rule: regionLoop_cases;
      simp add: regionLoop_stop regionLoop_abort regionLoop_next)+

lemma regionLoop_stopped:
  "stopped (snd (regionLoop numRegions i s)) =
     (stopped s \<or> fst (regionLoop numRegions i s) \<noteq> None)"
proof (induction numRegions i s rule: regionLoop_cases)
  case (stop numRegions i s)
  then show ?case by (simp add: regionLoop_stop)
next
  case (abort numRegions i s e)
  then show ?case by (simp add: regionLoop_abort region_stopped)
next
  case (continue numRegions i s)
  then show ?case by (simp add: regionLoop_next region_stopped)
qed

lemma regionLoop_error:
  "fst (regionLoop numRegions i s) = Some e \<Longrightarrow>
     e = FailedMetadata \<or> e = InvalidDimensions \<or> (\<exists>row k. e = FailedRow row k)"
proof (induction numRegions i s rule: regionLoop_cases)
  case (stop numRegions i s)
  then show ?case by (simp add: regionLoop_stop)
next
  case (abort numRegions i s e')
  then show ?case using region_error [of i s e] by (auto simp add: regionLoop_abort)
next
  case (continue numRegions i s)
  then show ?case by (simp add: regionLoop_next)
qed

lemma regionLoop_overrun:
  "8 \<le> length (metaData s) \<Longrightarrow> 2048 \<le> length (updateBuffer s) \<Longrightarrow>
     overrun (snd (regionLoop numRegions i s)) = overrun s"
proof (induction numRegions i s rule: regionLoop_cases)
  case (stop numRegions i s)
  then show ?case by (simp add: regionLoop_stop)
next
  case (abort numRegions i s e)
  then show ?case by (simp add: regionLoop_abort region_overrun)
next
  case (continue numRegions i s)
  then show ?case by (simp add: regionLoop_next region_overrun)
qed

text \<open>The iterations of the region loop, unfolded.\<close>

lemma region_starts_stop: "\<not> i < numRegions \<Longrightarrow> region_starts numRegions i s = []"
  by (subst region_starts.simps) simp

lemma region_starts_abort:
  "i < numRegions \<Longrightarrow> fst (region i s) = Some e \<Longrightarrow> region_starts numRegions i s = [(i, s)]"
  by (subst region_starts.simps) (simp add: case_prod_unfold)

lemma region_starts_continue:
  "i < numRegions \<Longrightarrow> fst (region i s) = None \<Longrightarrow>
     region_starts numRegions i s = (i, s) # region_starts numRegions (Suc i) (snd (region i s))"
  by (subst region_starts.simps) (simp add: case_prod_unfold)

text \<open>The writes of the region loop are those of the regions it enters, in order.\<close>

lemma regionLoop_writes:
  "stores (snd (regionLoop numRegions i s)) =
     stores s @ concat (map (\<lambda>(k, t). region_writes k t) (region_starts numRegions i s))"
proof (induction numRegions i s rule: regionLoop_cases)
  case (stop numRegions i s)
  then show ?case by (simp add: regionLoop_stop region_starts_stop)
next
  case (abort numRegions i s e)
  then show ?case
    by (simp add: regionLoop_abort region_starts_abort region_stores_split)
next
  case (continue numRegions i s)
  then show ?case
    by (simp add: regionLoop_next region_starts_continue region_stores_split)
qed

lemma region_starts_arrays:
  "(k, t) \<in> set (region_starts numRegions i s) \<Longrightarrow>
     length (metaData t) = length (metaData s) \<and>
     length (updateBuffer t) = length (updateBuffer s) \<and> i \<le> k \<and> k < numRegions"
proof (induction numRegions i s rule: regionLoop_cases)
  case (stop numRegions i s)
  then show ?case by (simp add: region_starts_stop)
next
  case (abort numRegions i s e)
  then show ?case by (simp add: region_starts_abort)
next
  case (continue numRegions i s)
  from continue.prems continue.hyps
  consider "(k, t) = (i, s)" | "(k, t) \<in> set (region_starts numRegions (Suc i) (snd (region i s)))"
    by (auto simp add: region_starts_continue)
  then show ?case
  proof cases
    case 1
    with continue.hyps(1) show ?thesis by simp
  next
    case 2
    from continue.IH [OF this] show ?thesis by simp
  qed
qed

text \<open>
  The paint calls of the region loop: one for each region that succeeded, each within the
  bounds that line 102 tests; as many as there were regions left exactly when the loop
  runs to its end.
\<close>

lemma regionLoop_tft:
  "\<exists>new. tft (snd (regionLoop numRegions i s)) = tft s @ new \<and>
     length new \<le> numRegions - i \<and>
     (fst (regionLoop numRegions i s) = None \<longrightarrow> length new = numRegions - i) \<and>
     (fst (regionLoop numRegions i s) \<noteq> None \<longrightarrow> length new < numRegions - i) \<and>
     (\<forall>c \<in> set new.
        uint (img_x c) + uint (img_w c) \<le> 240 \<and> uint (img_y c) + uint (img_h c) \<le> 240 \<and>
        uint (img_w c) \<le> 32 \<and> uint (img_h c) \<le> 32)"
proof (induction numRegions i s rule: regionLoop_cases)
  case (stop numRegions i s)
  then show ?case by (simp add: regionLoop_stop)
next
  case (abort numRegions i s e)
  then show ?case by (simp add: regionLoop_abort region_tft_failed)
next
  case (continue numRegions i s)
  let ?s1 = "snd (readExactBytes MetaData 8 s)"
  define c where "c = \<lparr>img_x = hdr_x ?s1, img_y = hdr_y ?s1, img_w = hdr_width ?s1,
    img_h = hdr_height ?s1, img_data = pixels (updateBuffer (snd (region i s)))\<rparr>"
  have one: "tft (snd (region i s)) = tft s @ [c]"
    unfolding c_def using continue.hyps(2) by (rule region_tft_painted(6))
  have valid: "\<not> invalid_dimensions ?s1"
    using continue.hyps(2) by (rule region_tft_painted(2))
  have c: "uint (img_x c) + uint (img_w c) \<le> 240 \<and> uint (img_y c) + uint (img_h c) \<le> 240 \<and>
        uint (img_w c) \<le> 32 \<and> uint (img_h c) \<le> 32"
    using valid by (simp add: c_def invalid_dimensions_def MAX_CHUNK_SIZE_def not_less)
  let ?r = "regionLoop numRegions (Suc i) (snd (region i s))"
  from continue.IH obtain new where conj:
    "tft (snd ?r) = tft (snd (region i s)) @ new \<and>
     length new \<le> numRegions - Suc i \<and>
     (fst ?r = None \<longrightarrow> length new = numRegions - Suc i) \<and>
     (fst ?r \<noteq> None \<longrightarrow> length new < numRegions - Suc i) \<and>
     (\<forall>c \<in> set new.
        uint (img_x c) + uint (img_w c) \<le> 240 \<and> uint (img_y c) + uint (img_h c) \<le> 240 \<and>
        uint (img_w c) \<le> 32 \<and> uint (img_h c) \<le> 32)" ..
  then have new: "tft (snd ?r) = tft (snd (region i s)) @ new"
    "length new \<le> numRegions - Suc i"
    "fst ?r = None \<longrightarrow> length new = numRegions - Suc i"
    "fst ?r \<noteq> None \<longrightarrow> length new < numRegions - Suc i"
    "\<forall>c \<in> set new.
        uint (img_x c) + uint (img_w c) \<le> 240 \<and> uint (img_y c) + uint (img_h c) \<le> 240 \<and>
        uint (img_w c) \<le> 32 \<and> uint (img_h c) \<le> 32"
    by blast+
  have "tft (snd ?r) = tft s @ (c # new)"
    by (simp add: new(1) one)
  moreover have "length (c # new) \<le> numRegions - i"
    "fst ?r = None \<longrightarrow> length (c # new) = numRegions - i"
    "fst ?r \<noteq> None \<longrightarrow> length (c # new) < numRegions - i"
    using new(2,3,4) continue.hyps(1) by auto
  moreover have "\<forall>c \<in> set (c # new).
        uint (img_x c) + uint (img_w c) \<le> 240 \<and> uint (img_y c) + uint (img_h c) \<le> 240 \<and>
        uint (img_w c) \<le> 32 \<and> uint (img_h c) \<le> 32"
    using c new(5) by simp
  ultimately show ?case
    unfolding regionLoop_next [OF continue.hyps(1,2)]
    by (intro exI [of _ "c # new"]) blast
qed

subsection \<open>The whole of \<^verbatim>\<open>loop\<close>\<close>

lemma drainLoop_frame [simp]:
  "clock (drainLoop s) = clock s" "elapse (drainLoop s) = elapse s"
  "connected (drainLoop s) = connected s" "sent (drainLoop s) = sent s"
  "stopped (drainLoop s) = stopped s" "metaData (drainLoop s) = metaData s"
  "updateBuffer (drainLoop s) = updateBuffer s" "stores (drainLoop s) = stores s"
  "overrun (drainLoop s) = overrun s" "tft (drainLoop s) = tft s"
  by (induction s rule: drainLoop.induct; subst drainLoop.simps; simp)+

lemma count_range:
  fixes n :: "8 word"
  assumes "\<not> (n = 0 \<or> n > 100)"
  shows "1 \<le> n" "n \<le> 100" "1 \<le> unat n" "unat n \<le> 100"
proof -
  from assms have "n \<noteq> 0" "n \<le> 100" by (simp_all add: not_less)
  then show "1 \<le> n" "n \<le> 100" "1 \<le> unat n" "unat n \<le> 100"
    by (simp_all add: word_le_nat_alt unat_gt_0 Suc_le_eq)
qed

text \<open>The five ways a run of \<^verbatim>\<open>loop()\<close> with a client ends.\<close>

lemma loop_cases [consumes 1, case_names timeout badcount aborted finished]:
  assumes "connected s"
    and "\<And>ms s1. s1 = delay ms s \<Longrightarrow> \<not> available s1 \<Longrightarrow>
           loop s = Some (Some ClientTimeout, client_stop s1) \<Longrightarrow> P"
    and "\<And>ms s1 numRegions s2. s1 = delay ms s \<Longrightarrow> available s1 \<Longrightarrow>
           numRegions = snd (hd (incoming s)) \<Longrightarrow> s2 = s1\<lparr>incoming := tl (incoming s)\<rparr> \<Longrightarrow>
           numRegions = 0 \<or> numRegions > 100 \<Longrightarrow>
           loop s = Some (Some InvalidNumberOfRegions, client_stop s2) \<Longrightarrow> P"
    and "\<And>ms s1 numRegions s2 e. s1 = delay ms s \<Longrightarrow> available s1 \<Longrightarrow>
           numRegions = snd (hd (incoming s)) \<Longrightarrow> s2 = s1\<lparr>incoming := tl (incoming s)\<rparr> \<Longrightarrow>
           1 \<le> numRegions \<Longrightarrow> numRegions \<le> 100 \<Longrightarrow>
           fst (regionLoop (unat numRegions) 0 s2) = Some e \<Longrightarrow>
           loop s = Some (Some e, snd (regionLoop (unat numRegions) 0 s2)) \<Longrightarrow> P"
    and "\<And>ms s1 numRegions s2 s3. s1 = delay ms s \<Longrightarrow> available s1 \<Longrightarrow>
           numRegions = snd (hd (incoming s)) \<Longrightarrow> s2 = s1\<lparr>incoming := tl (incoming s)\<rparr> \<Longrightarrow>
           1 \<le> numRegions \<Longrightarrow> numRegions \<le> 100 \<Longrightarrow>
           fst (regionLoop (unat numRegions) 0 s2) = None \<Longrightarrow>
           s3 = snd (regionLoop (unat numRegions) 0 s2) \<Longrightarrow>
           loop s = Some (None, client_stop (drainLoop (delay 10 (client_write [0x4F, 0x4B] s3)))) \<Longrightarrow> P"
  shows P
proof -
  obtain s1 where wait: "waitLoop (millis s + 5000) s = Some s1"
    using waitLoop_returns by blast
  then obtain ms where s1: "s1 = delay ms s"
    using waitLoop_frame by blast
  show ?thesis
  proof (cases "available s1")
    case False
    then have "loop s = Some (Some ClientTimeout, client_stop s1)"
      using assms(1) wait by (simp add: loop_def)
    with s1 False show ?thesis by (rule assms(2))
  next
    case avail: True
    define numRegions where "numRegions = snd (hd (incoming s))"
    define s2 where "s2 = s1\<lparr>incoming := tl (incoming s)\<rparr>"
    have rd: "client_read s1 = (numRegions, s2)"
      using client_read_available [OF avail] by (simp add: numRegions_def s2_def s1)
    show ?thesis
    proof (cases "numRegions = 0 \<or> numRegions > 100")
      case True
      then have "loop s = Some (Some InvalidNumberOfRegions, client_stop s2)"
        using assms(1) wait avail rd by (simp add: loop_def)
      with s1 avail numRegions_def s2_def True show ?thesis by (rule assms(3))
    next
      case False
      then have range: "1 \<le> numRegions" "numRegions \<le> 100"
        by (rule count_range)+
      show ?thesis
      proof (cases "fst (regionLoop (unat numRegions) 0 s2)")
        case (Some e)
        then have "loop s = Some (Some e, snd (regionLoop (unat numRegions) 0 s2))"
          using assms(1) wait avail rd False by (simp add: loop_def case_prod_unfold)
        with s1 avail numRegions_def s2_def range Some show ?thesis by (rule assms(4))
      next
        case None
        then have "loop s = Some (None, client_stop (drainLoop (delay 10
            (client_write [0x4F, 0x4B] (snd (regionLoop (unat numRegions) 0 s2))))))"
          using assms(1) wait avail rd False by (simp add: loop_def case_prod_unfold)
        with s1 avail numRegions_def s2_def range None refl show ?thesis by (rule assms(5))
      qed
    qed
  qed
qed

lemma loop_no_client: "\<not> connected s \<Longrightarrow> loop s = Some (Some NoClient, s)"
  by (simp add: loop_def)

lemma pixel_index_bound:
  assumes "width \<le> 32" "height \<le> 32" "row < height" "j < width"
  shows "row * width + j < (1024::nat)"
proof -
  have "row * width + j < Suc row * width"
    using assms(4) by simp
  also have "\<dots> \<le> height * width"
    using assms(3) by (intro mult_le_mono1) simp
  also have "\<dots> \<le> 32 * 32"
    using assms(1,2) by (rule mult_le_mono [rotated])
  finally show ?thesis by simp
qed

text \<open>Hence every write of a region goes to a pixel index below 1024.\<close>

lemma region_writes_bound:
  assumes "a \<in> set (region_writes i s)" and "8 \<le> length (metaData s)"
  shows "a div 2 < 1024"
proof -
  note tie = region_writes_tied [OF assms]
  from tie(4) obtain row j where
    "row < unat (be16 (snd (incoming s ! 6)) (snd (incoming s ! 7)))"
    "j < unat (be16 (snd (incoming s ! 4)) (snd (incoming s ! 5)))"
    "a div 2 = row * unat (be16 (snd (incoming s ! 4)) (snd (incoming s ! 5))) + j"
    by blast
  with pixel_index_bound [OF tie(2,3) this(1,2)] show ?thesis
    by simp
qed

lemma regionLoop_count:
  fixes numRegions :: u8
  assumes "s2 = (delay ms s)\<lparr>incoming := inc\<rparr>" and "1 \<le> numRegions"
  defines "r \<equiv> regionLoop (unat numRegions) 0 s2"
  shows "length (tft (snd r)) \<le> length (tft s) + unat numRegions"
    and "fst r = None \<longleftrightarrow> length (tft (snd r)) = length (tft s) + unat numRegions"
    and "sent (snd r) = sent s"
proof -
  from regionLoop_tft [of "unat numRegions" 0 s2] obtain new where conj:
    "tft (snd r) = tft s2 @ new \<and> length new \<le> unat numRegions - 0 \<and>
     (fst r = None \<longrightarrow> length new = unat numRegions - 0) \<and>
     (fst r \<noteq> None \<longrightarrow> length new < unat numRegions - 0) \<and>
     (\<forall>c \<in> set new.
        uint (img_x c) + uint (img_w c) \<le> 240 \<and> uint (img_y c) + uint (img_h c) \<le> 240 \<and>
        uint (img_w c) \<le> 32 \<and> uint (img_h c) \<le> 32)"
    unfolding r_def ..
  then have new: "tft (snd r) = tft s2 @ new" "length new \<le> unat numRegions - 0"
    "fst r = None \<Longrightarrow> length new = unat numRegions - 0"
    "fst r \<noteq> None \<Longrightarrow> length new < unat numRegions - 0"
    by blast+
  have s2: "tft s2 = tft s"
    by (simp add: assms(1))
  show "length (tft (snd r)) \<le> length (tft s) + unat numRegions"
    using new(1,2) by (simp add: s2)
  show "fst r = None \<longleftrightarrow> length (tft (snd r)) = length (tft s) + unat numRegions"
    using new(1,3,4) by (cases "fst r = None") (simp_all add: s2)
  show "sent (snd r) = sent s"
    by (simp add: r_def assms(1))
qed


subsection \<open>When the bytes are already there\<close>

text \<open>
  With every queued byte arrived, \<^verbatim>\<open>yield()\<close> taking 1 ms and the deadline far enough, the
  read loop takes one byte per round and ends with all of them.
\<close>

lemma readLoop_ready:
  "elapse s = [] \<Longrightarrow> received \<le> len \<Longrightarrow> len - received \<le> length (incoming s) \<Longrightarrow>
   (\<forall>p \<in> set (incoming s). fst p \<le> clock s) \<Longrightarrow>
   unat (millis s) + (len - received) \<le> unat timeout \<Longrightarrow>
     fst (readLoop buffer len timeout received s) = len \<and>
     clock (snd (readLoop buffer len timeout received s)) = clock s + (len - received) \<and>
     elapse (snd (readLoop buffer len timeout received s)) = []"
proof (induction buffer len timeout received s rule: readLoop_cases)
  case (stop buffer len timeout received s)
  have "received = len"
  proof (rule ccontr)
    assume "received \<noteq> len"
    with stop.prems(2) have lt: "received < len" by simp
    with stop.prems(5) have "unat (millis s) < unat timeout" by linarith
    then have "millis s < timeout" by (simp add: word_less_nat_alt)
    with lt stop.hyps show False by simp
  qed
  then show ?case
    using stop.prems(1) by (simp add: readLoop_stop)
next
  case (take buffer len timeout received s)
  let ?s2 = "yield (poke buffer received (fst (client_read s)) (snd (client_read s)))"
  have inc: "incoming (snd (client_read s)) = tl (incoming s)"
    using take.hyps(3) by (rule client_read_taken)
  have el: "elapse ?s2 = []" and cl: "clock ?s2 = Suc (clock s)"
    using take.prems(1) by (simp_all add: yield_def)
  have "unat timeout < 2 ^ 32"
    using unsigned_less [of timeout] by simp
  moreover have "unat (millis s) < unat timeout"
    using take.hyps(2) by (simp add: word_less_nat_alt)
  ultimately have "unat (millis s) + 1 < 2 ^ 32"
    by linarith
  then have "unat (millis (delay 1 s)) = unat (millis s) + 1"
    by (rule unat_millis_delay)
  then have ms: "unat (millis ?s2) = unat (millis s) + 1"
    by (simp add: unat_millis cl)
  have 1: "len - Suc received \<le> length (incoming ?s2)"
    using take.prems(3) take.hyps(1) by (simp add: inc)
  have "fst p \<le> Suc (clock s)" if "p \<in> set (tl (incoming s))" for p
  proof -
    from that have "p \<in> set (incoming s)" by (cases "incoming s") simp_all
    with take.prems(4) have "fst p \<le> clock s" by blast
    then show ?thesis by simp
  qed
  then have 2: "\<forall>p \<in> set (incoming ?s2). fst p \<le> clock ?s2"
    by (simp add: inc cl)
  have 3: "unat (millis ?s2) + (len - Suc received) \<le> unat timeout"
    using take.prems(5) take.hyps(1) by (simp add: ms)
  have "Suc (clock s) + (len - Suc received) = clock s + (len - received)"
    using take.hyps(1) by linarith
  with take.IH [OF el _ 1 2 3] take.hyps(1) show ?case
    by (simp add: readLoop_take take.hyps cl del: add_Suc)
next
  case (idle buffer len timeout received s)
  from idle.prems(3) idle.hyps(1) have "incoming s \<noteq> []"
    by auto
  with idle.prems(4) have "available s"
    by (cases "incoming s") (auto simp add: available_def)
  with idle.hyps(3) show ?case by simp
qed

lemma unat_plus_1000:
  fixes x :: "32 word"
  assumes "unat x + 1000 < 4294967296"
  shows "unat (x + 1000) = unat x + 1000"
proof -
  have "unat (1000 :: 32 word) = 1000" by simp
  with unat_word_ariths(1) [of x 1000] have "unat (x + 1000) = (unat x + 1000) mod 4294967296"
    by simp
  with assms show ?thesis by (simp only: mod_less)
qed

lemma readExactBytes_ready:
  assumes "elapse s = []" and "len \<le> length (incoming s)"
    and "\<forall>p \<in> set (incoming s). fst p \<le> clock s"
    and "len \<le> 1000" and "unat (millis s) + 1000 < 4294967296"
  shows "fst (readExactBytes buffer len s)"
    and "clock (snd (readExactBytes buffer len s)) = clock s + len"
    and "elapse (snd (readExactBytes buffer len s)) = []"
proof -
  have "unat (millis s + 1000) = unat (millis s) + 1000"
    using assms(5) by (rule unat_plus_1000)
  with assms(4) have "unat (millis s) + (len - 0) \<le> unat (millis s + 1000)"
    by simp
  from readLoop_ready [OF assms(1) _ _ assms(3) this, of buffer] assms(2)
  show "fst (readExactBytes buffer len s)"
    and "clock (snd (readExactBytes buffer len s)) = clock s + len"
    and "elapse (snd (readExactBytes buffer len s)) = []"
    by (simp_all add: readExactBytes_eq)
qed

lemma be16_word: "be16 hi lo = push_bit 8 (ucast hi) OR ucast lo"
  unfolding be16_def
  by (rule bit_word_eqI) (auto simp add: bit_simps)
  
lemma pixel_be16: "pixel mem k = be16 (mem ! (2 * k + 1)) (mem ! (2 * k))"
  by (simp add: pixel_def be16_word)


subsection \<open>The run on the request of one region\<close>

lemma after_count_simps:
  "clock after_count = 0" "elapse after_count = []"
  "incoming after_count = map (Pair 0) [0, 0, 0, 0, 0, 2, 0, 1, 0x00, 0xFF, 0x12, 0x34]"
  "length (metaData after_count) = 8" "length (updateBuffer after_count) = 2048"
  "tft after_count = []" "sent after_count = []" "stores after_count = []"
  by (simp_all add: after_count_def one_region_def)

lemma one_region_header:
  defines "s1 \<equiv> snd (readExactBytes MetaData 8 after_count)"
  shows "fst (readExactBytes MetaData 8 after_count)"
    and "clock s1 = 8" and "elapse s1 = []"
    and "incoming s1 = map (Pair 0) [0x00, 0xFF, 0x12, 0x34]"
    and "hdr_x s1 = 0" and "hdr_y s1 = 0" and "hdr_width s1 = 2" and "hdr_height s1 = 1"
proof -
  have arrived: "\<forall>p \<in> set (incoming after_count). fst p \<le> clock after_count"
    by (simp add: after_count_simps)
  have small: "unat (millis after_count) + 1000 < 4294967296"
    by (simp add: unat_millis after_count_simps)
  show ok: "fst (readExactBytes MetaData 8 after_count)"
    and "clock s1 = 8" and "elapse s1 = []"
    using readExactBytes_ready [OF after_count_simps(2) _ arrived _ small, of 8 MetaData]
    by (simp_all add: after_count_simps s1_def)
  note hw = header_wire [OF ok, folded s1_def]
  show "incoming s1 = map (Pair 0) [0x00, 0xFF, 0x12, 0x34]"
    using hw(2) by (simp add: after_count_simps)
  show "hdr_x s1 = 0" "hdr_y s1 = 0" "hdr_width s1 = 2" "hdr_height s1 = 1"
    using hw(3-6) by (simp_all add: after_count_simps be16_def)
qed

lemma take_pixels:
  "n \<le> length mem div 2 \<Longrightarrow> take n (pixels mem) = map (pixel mem) [0..<n]"
  by (simp add: pixels_def take_map)

lemma one_region_rows:
  defines "s1 \<equiv> snd (readExactBytes MetaData 8 after_count)"
  defines "s2 \<equiv> snd (rowLoop 0 2 1 0 s1)"
  shows "fst (rowLoop 0 2 1 0 s1) = None"
    and "incoming s2 = []"
    and "updateBuffer s2 ! 0 = 0xFF" "updateBuffer s2 ! 1 = 0x00"
      "updateBuffer s2 ! 2 = 0x34" "updateBuffer s2 ! 3 = 0x12"
    and "take 2 (pixels (updateBuffer s2)) = [0x00FF, 0x1234]"
proof -
  note hd = one_region_header [folded s1_def]
  have len1: "length (updateBuffer s1) = 2048"
    by (simp add: s1_def after_count_simps)
  have arrived: "\<forall>p \<in> set (incoming s1). fst p \<le> clock s1"
    by (simp add: hd)
  have small: "unat (millis s1) + 1000 < 4294967296"
    by (simp add: unat_millis hd)
  have ok: "fst (readExactBytes (ByteBuffer (2 * (0 * 2))) (2 * 2) s1)"
    using readExactBytes_ready(1) [OF hd(3) _ arrived _ small, of 4 "ByteBuffer 0"]
    by (simp add: hd)
  have "rowLoop 0 2 1 0 s1 = rowLoop 0 2 1 1
      (swapLoop (ByteBuffer (2 * (0 * 2))) 2 0 (snd (readExactBytes (ByteBuffer (2 * (0 * 2))) (2 * 2) s1)))"
    using rowLoop_step [of 0 1 2 s1 0] ok by simp
  then show none: "fst (rowLoop 0 2 1 0 s1) = None"
    by (simp add: rowLoop_stop)
  from rowLoop_filled [OF none] len1
  have inc: "incoming s2 = drop 4 (incoming s1)"
    and mem: "\<And>a. a < 2048 \<Longrightarrow> updateBuffer s2 ! a =
          (if a < 4
           then (if even a then snd (incoming s1 ! (a + 1)) else snd (incoming s1 ! (a - 1)))
           else updateBuffer s1 ! a)"
    by (simp_all add: s2_def)
  show "incoming s2 = []"
    by (simp add: inc hd)
  have len2: "length (updateBuffer s2) = 2048"
    by (simp add: s2_def len1)
  show bytes: "updateBuffer s2 ! 0 = 0xFF" "updateBuffer s2 ! 1 = 0x00"
    "updateBuffer s2 ! 2 = 0x34" "updateBuffer s2 ! 3 = 0x12"
    by (simp_all add: mem hd)
  have "pixel (updateBuffer s2) 0 = 0x00FF" "pixel (updateBuffer s2) 1 = 0x1234"
    using bytes by (simp_all add: pixel_def)
  moreover have "take 2 (pixels (updateBuffer s2)) = map (pixel (updateBuffer s2)) [0..<2]"
    by (rule take_pixels) (simp add: len2)
  moreover have "[0..<2] = [0, 1::nat]"
    by (simp add: upt_rec)
  ultimately show "take 2 (pixels (updateBuffer s2)) = [0x00FF, 0x1234]"
    by simp
qed

lemma readExactBytes_true_stores:
  assumes "fst (readExactBytes (ByteBuffer base) len s)"
  shows "stores (snd (readExactBytes (ByteBuffer base) len s)) =
     stores s @ map (\<lambda>k. base + k) [0..<len]"
proof -
  have "fst (readLoop (ByteBuffer base) len (millis s + 1000) 0 s) = len"
    using assms by (simp add: readExactBytes_eq)
  with readLoop_stores [of base len "millis s + 1000" 0 s] show ?thesis
    by (simp add: readExactBytes_eq)
qed

lemma one_region_stores:
  "stores (snd (rowLoop 0 2 1 0 (snd (readExactBytes MetaData 8 after_count)))) =
     [0, 1, 2, 3, 0, 1, 2, 3]"
proof -
  define s1 where "s1 = snd (readExactBytes MetaData 8 after_count)"
  note hd = one_region_header [folded s1_def]
  have arrived: "\<forall>p \<in> set (incoming s1). fst p \<le> clock s1"
    by (simp add: hd)
  have small: "unat (millis s1) + 1000 < 4294967296"
    by (simp add: unat_millis hd)
  have ok: "fst (readExactBytes (ByteBuffer 0) 4 s1)"
    using readExactBytes_ready(1) [OF hd(3) _ arrived _ small, of 4 "ByteBuffer 0"]
    by (simp add: hd)
  have "rowLoop 0 2 1 0 s1 = rowLoop 0 2 1 1
      (swapLoop (ByteBuffer 0) 2 0 (snd (readExactBytes (ByteBuffer 0) 4 s1)))"
    using rowLoop_step [of 0 1 2 s1 0] ok by simp
  then have rows: "snd (rowLoop 0 2 1 0 s1) =
      swapLoop (ByteBuffer 0) 2 0 (snd (readExactBytes (ByteBuffer 0) 4 s1))"
    by (simp add: rowLoop_stop)
  have "stores s1 = []"
    by (simp add: s1_def after_count_simps)
  moreover have "[0..<4] = [0, 1, 2, 3::nat]" "[0..<2] = [0, 1::nat]"
    by (simp_all add: upt_rec)
  ultimately have "stores (swapLoop (ByteBuffer 0) 2 0 (snd (readExactBytes (ByteBuffer 0) 4 s1))) =
      [0, 1, 2, 3, 0, 1, 2, 3]"
    by (simp add: swapLoop_stores readExactBytes_true_stores [OF ok])
  then have "stores (snd (rowLoop 0 2 1 0 s1)) = [0, 1, 2, 3, 0, 1, 2, 3]"
    by (simp only: rows)
  then show ?thesis
    by (simp only: s1_def)
qed

lemma one_region_painted:
  defines "s1 \<equiv> snd (readExactBytes MetaData 8 after_count)"
  defines "s2 \<equiv> snd (rowLoop 0 2 1 0 s1)"
  shows "region 0 after_count = (None, yield (pushImage 0 0 2 1 s2))"
proof -
  note hd = one_region_header [folded s1_def]
  have valid: "\<not> invalid_dimensions s1"
    by (simp add: invalid_dimensions_def hd MAX_CHUNK_SIZE_def)
  have dims: "unat (hdr_width s1) = 2" "unat (hdr_height s1) = 1"
    by (simp_all add: hd)
  have rows: "fst (rowLoop 0 2 1 0 s1) = None"
    unfolding s1_def by (rule one_region_rows(1))
  have "region 0 after_count =
      (None, yield (pushImage (hdr_x s1) (hdr_y s1) (hdr_width s1) (hdr_height s1)
         (snd (rowLoop 0 (unat (hdr_width s1)) (unat (hdr_height s1)) 0 s1))))"
    using hd(1) valid rows
    by (simp add: region_unfold Let_def dims flip: s1_def)
  then show ?thesis
    by (simp add: hd s2_def)
qed

lemma one_region_run:
  "\<exists>s' c. loop one_region = Some (None, s') \<and> sent s' = [0x4F, 0x4B] \<and> stopped s' \<and>
     incoming s' = [] \<and> tft s' = [c] \<and>
     img_x c = 0 \<and> img_y c = 0 \<and> img_w c = 2 \<and> img_h c = 1 \<and>
     take 2 (img_data c) = [0x00FF, 0x1234] \<and> stores s' = [0, 1, 2, 3, 0, 1, 2, 3]"
proof -
  define s1 where "s1 = snd (readExactBytes MetaData 8 after_count)"
  define s2 where "s2 = snd (rowLoop 0 2 1 0 s1)"
  define s3 where "s3 = yield (pushImage 0 0 2 1 s2)"
  define c where "c = \<lparr>img_x = 0, img_y = 0, img_w = 2, img_h = 1, img_data = pixels (updateBuffer s2)\<rparr>"
  have reg: "region 0 after_count = (None, s3)"
    unfolding s3_def s2_def s1_def by (rule one_region_painted)
  have "regionLoop 1 0 after_count = regionLoop 1 1 s3"
    using regionLoop_next [of 0 1 after_count] by (simp add: reg)
  then have regs: "regionLoop 1 0 after_count = (None, s3)"
    by (simp add: regionLoop_stop)
  have avail: "available one_region"
    by (simp add: available_def one_region_def)
  then have wait: "waitLoop (millis one_region + 5000) one_region = Some one_region"
    by (subst waitLoop.simps) simp
  have rd: "client_read one_region = (1, after_count)"
    using client_read_available [OF avail] by (simp add: after_count_def) (simp add: one_region_def)
  define s' where "s' = client_stop (drainLoop (delay 10 (client_write [0x4F, 0x4B] s3)))"
  have run: "loop one_region = Some (None, s')"
    using wait avail rd regs by (simp add: loop_def s'_def) (simp add: one_region_def)
  have inc3: "incoming s3 = []"
    using one_region_rows(2) by (simp add: s3_def s2_def s1_def)
  have "\<not> available (delay 10 (client_write [0x4F, 0x4B] s3))"
    by (simp add: available_def inc3)
  then have drain: "drainLoop (delay 10 (client_write [0x4F, 0x4B] s3)) =
      delay 10 (client_write [0x4F, 0x4B] s3)"
    by (subst drainLoop.simps) simp
  have tft2: "tft s2 = []" and sent2: "sent s2 = []"
    by (simp_all add: s2_def s1_def after_count_simps)
  have "tft s' = [c]"
    by (simp add: s'_def s3_def pushImage_def c_def tft2)
  moreover have "sent s' = [0x4F, 0x4B]"
    by (simp add: s'_def s3_def sent2)
  moreover have "incoming s' = []"
    by (simp add: s'_def drain inc3)
  moreover have "stopped s'"
    by (simp add: s'_def)
  moreover have "stores s' = [0, 1, 2, 3, 0, 1, 2, 3]"
    using one_region_stores by (simp add: s'_def s3_def s2_def s1_def)
  moreover have "take 2 (img_data c) = [0x00FF, 0x1234]"
    using one_region_rows(7) by (simp add: c_def s2_def s1_def)
  ultimately show ?thesis
    using run by (intro exI [of _ s'] exI [of _ c]) (simp add: c_def)
qed

subsection \<open>The run on a request with a bad region count\<close>

lemma slow_peer_run:
  "\<exists>s'. loop slow_peer = Some (Some InvalidNumberOfRegions, s') \<and> sent s' = [] \<and> tft s' = []"
proof -
  have avail: "available slow_peer"
    by (simp add: available_def slow_peer_def)
  then have wait: "waitLoop (millis slow_peer + 5000) slow_peer = Some slow_peer"
    by (subst waitLoop.simps) simp
  have rd: "fst (client_read slow_peer) = 0xAB"
    using client_read_available [OF avail] by (simp add: slow_peer_def)
  have "loop slow_peer = Some (Some InvalidNumberOfRegions, client_stop (snd (client_read slow_peer)))"
    using wait avail rd by (simp add: loop_def case_prod_unfold) (simp add: slow_peer_def)
  moreover have "sent slow_peer = []" "tft slow_peer = []"
    by (simp_all add: slow_peer_def)
  ultimately show ?thesis
    by simp
qed

subsection \<open>Regions without pixels, and the two other streams\<close>

lemma rowLoop_no_pixels:
  "width = 0 \<or> height = 0 \<Longrightarrow> rowLoop i width height row s = (None, s)"
proof (induction i width height row s rule: rowLoop_cases)
  case (stop i width height row s)
  then show ?case by (simp add: rowLoop_stop)
next
  case (fail i width height row s)
  then show ?case by (auto simp add: readExactBytes_zero)
next
  case (step i width height row s)
  from step.hyps(1) step.prems have width: "width = 0" by auto
  then have "swapLoop (ByteBuffer (2 * (row * width))) width 0
      (snd (readExactBytes (ByteBuffer (2 * (row * width))) (width * 2) s)) = s"
    by (simp add: readExactBytes_zero swapLoop_stop)
  with step.IH step.prems show ?case
    by (simp add: rowLoop_step step.hyps)
qed

lemma fixture_simps:
  "elapse past_the_edge = []" "clock past_the_edge = 0"
  "incoming past_the_edge = map (Pair 0) [0, 230, 0, 0, 0, 32, 0, 1]"
  "length (metaData past_the_edge) = 8" "tft past_the_edge = []" "stopped past_the_edge = False"
  "elapse no_width = []" "clock no_width = 0"
  "incoming no_width = map (Pair 0) [0, 5, 0, 7, 0, 0, 0, 3]"
  "length (metaData no_width) = 8" "tft no_width = []" "stopped no_width = False"
  by (simp_all add: past_the_edge_def no_width_def after_count_def one_region_def)

lemma fixture_headers:
  "fst (readExactBytes MetaData 8 past_the_edge)" "fst (readExactBytes MetaData 8 no_width)"
proof -
  have "unat (millis past_the_edge) + 1000 < 4294967296" "unat (millis no_width) + 1000 < 4294967296"
    by (simp_all add: unat_millis fixture_simps)
  moreover have "\<forall>p \<in> set (incoming past_the_edge). fst p \<le> clock past_the_edge"
    "\<forall>p \<in> set (incoming no_width). fst p \<le> clock no_width"
    by (simp_all add: fixture_simps)
  ultimately show "fst (readExactBytes MetaData 8 past_the_edge)"
    "fst (readExactBytes MetaData 8 no_width)"
    using readExactBytes_ready(1) [of past_the_edge 8 MetaData]
      readExactBytes_ready(1) [of no_width 8 MetaData]
    by (simp_all add: fixture_simps)
qed


lemma pixel_index_fits:
  assumes "width \<le> 32" "height \<le> 32" "row < height" "j < width"
  shows "2 * (row * width + j) + 1 < height * width * 2" "height * width * 2 \<le> (2048::nat)"
proof -
  have "row * width + j < Suc row * width"
    using assms(4) by simp
  also have "\<dots> \<le> height * width"
    using assms(3) by (intro mult_le_mono1) simp
  finally show "2 * (row * width + j) + 1 < height * width * 2"
    by simp
  have "height * width \<le> 32 * 32"
    using assms(1,2) by (rule mult_le_mono [rotated])
  then show "height * width * 2 \<le> 2048"
    by simp
qed


text \<open>What the scratch buffer holds when the rows of a region have all been read.\<close>

lemma rowLoop_pixels:
  assumes "fst (rowLoop i width height 0 s) = None"
    and "width \<le> 32" and "height \<le> 32" and "length (updateBuffer s) = 2048"
  defines "s' \<equiv> snd (rowLoop i width height 0 s)"
  shows "height * (width * 2) \<le> length (incoming s) \<and>
     incoming s' = drop (height * (width * 2)) (incoming s) \<and>
     length (updateBuffer s') = 2048 \<and>
     (\<forall>row < height. \<forall>j < width.
        updateBuffer s' ! (2 * (row * width + j)) = snd (incoming s ! (2 * (row * width + j) + 1)) \<and>
        updateBuffer s' ! (2 * (row * width + j) + 1) = snd (incoming s ! (2 * (row * width + j))) \<and>
        pixel (updateBuffer s') (row * width + j) =
          be16 (snd (incoming s ! (2 * (row * width + j))))
               (snd (incoming s ! (2 * (row * width + j) + 1)))) \<and>
     (\<forall>a < 2048. height * width * 2 \<le> a \<longrightarrow> updateBuffer s' ! a = updateBuffer s ! a)"
proof -
  have fits: "height * width * 2 \<le> length (updateBuffer s)"
  proof -
    have "height * width \<le> 32 * 32"
      using assms(2,3) by (rule mult_le_mono [rotated])
    then show ?thesis using assms(4) by simp
  qed
  from rowLoop_filled [OF assms(1) fits]
  have taken: "height * (width * 2) \<le> length (incoming s)"
    and rest: "incoming s' = drop (height * (width * 2)) (incoming s)"
    and mem: "\<And>a. a < 2048 \<Longrightarrow> updateBuffer s' ! a =
          (if a < height * width * 2
           then (if even a then snd (incoming s ! (a + 1)) else snd (incoming s ! (a - 1)))
           else updateBuffer s ! a)"
    using assms(4) by (simp_all add: s'_def)
  have cell: "updateBuffer s' ! (2 * (row * width + j)) = snd (incoming s ! (2 * (row * width + j) + 1)) \<and>
        updateBuffer s' ! (2 * (row * width + j) + 1) = snd (incoming s ! (2 * (row * width + j))) \<and>
        pixel (updateBuffer s') (row * width + j) =
          be16 (snd (incoming s ! (2 * (row * width + j))))
               (snd (incoming s ! (2 * (row * width + j) + 1)))"
    if "row < height" "j < width" for row j
  proof -
    define k where "k = row * width + j"
    have k: "2 * k + 1 < height * width * 2" "height * width * 2 \<le> 2048"
      unfolding k_def using assms(2,3) that by (rule pixel_index_fits)+
    then have "2 * k < 2048" "2 * k + 1 < 2048" "2 * k < height * width * 2"
      by linarith+
    with mem [of "2 * k"] mem [of "2 * k + 1"] k(1)
    have "updateBuffer s' ! (2 * k) = snd (incoming s ! (2 * k + 1))"
      "updateBuffer s' ! (2 * k + 1) = snd (incoming s ! (2 * k))"
      by simp_all
    then show ?thesis
      by (simp add: pixel_be16 flip: k_def)
  qed
  have "length (updateBuffer s') = 2048"
    using assms(4) by (simp add: s'_def)
  moreover have "\<forall>a < 2048. height * width * 2 \<le> a \<longrightarrow> updateBuffer s' ! a = updateBuffer s ! a"
    using mem by simp
  ultimately show ?thesis
    using taken rest cell by blast
qed

subsection \<open>The paint calls are the regions of the request\<close>

lemma region_painted_wire:
  assumes ok: "fst (region i s) = None"
    and meta: "length (metaData s) = 8" and buf: "length (updateBuffer s) = 2048"
  defines "bs \<equiv> map snd (incoming s)"
  shows "\<exists>c. tft (snd (region i s)) = tft s @ [c] \<and> sink_view c = wire_region bs \<and>
           img_data c = pixels (updateBuffer (snd (region i s)))"
    and "wire_size bs \<le> length (incoming s)"
    and "incoming (snd (region i s)) = drop (wire_size bs) (incoming s)"
proof -
  define s1 where "s1 = snd (readExactBytes MetaData 8 s)"
  define W where "W = unat (hdr_width s1)"
  define H where "H = unat (hdr_height s1)"
  define s2 where "s2 = snd (rowLoop i W H 0 s1)"
  note p = region_tft_painted [OF ok, folded s1_def, folded W_def H_def, folded s2_def]
  have len8: "8 \<le> length (metaData s)"
    using meta by simp
  note hw = header_wire [OF p(1) len8, folded s1_def]
  have nth_bs: "bs ! k = snd (incoming s ! k)" if "k < length (incoming s)" for k
    using that by (simp add: bs_def)
  have first: "bs ! k = snd (incoming s ! k)" if "k < 8" for k
    using that hw(1) by (intro nth_bs) linarith
  have hdr: "hdr_x s1 = be16 (bs ! 0) (bs ! 1)" "hdr_y s1 = be16 (bs ! 2) (bs ! 3)"
    "hdr_width s1 = be16 (bs ! 4) (bs ! 5)" "hdr_height s1 = be16 (bs ! 6) (bs ! 7)"
    by (simp_all add: hw first)
  have dims: "W \<le> 32" "H \<le> 32"
    using valid_dimensions(3,4) [OF p(2)] by (simp_all add: W_def H_def)
  have buf1: "length (updateBuffer s1) = 2048"
    using buf by (simp add: s1_def)
  note filled = rowLoop_pixels [OF p(3) dims buf1, folded s2_def]
  have size: "wire_size bs = 8 + H * (W * 2)"
    by (simp add: wire_size_def hdr W_def H_def mult.commute)
  have taken: "H * (W * 2) \<le> length (incoming s1)"
    using filled by blast
  then show fits: "wire_size bs \<le> length (incoming s)"
    using hw(1) by (simp add: size hw(2))
  have "incoming s2 = drop (H * (W * 2)) (incoming s1)"
    using filled by blast
  then show "incoming (snd (region i s)) = drop (wire_size bs) (incoming s)"
    by (simp add: p(5) size hw(2) add.commute)
  define c where "c = \<lparr>img_x = hdr_x s1, img_y = hdr_y s1, img_w = hdr_width s1,
    img_h = hdr_height s1, img_data = pixels (updateBuffer (snd (region i s)))\<rparr>"
  have mem: "updateBuffer (snd (region i s)) = updateBuffer s2"
    by (simp add: p(4))
  have px: "pixel (updateBuffer s2) k = be16 (bs ! (8 + 2 * k)) (bs ! (8 + 2 * k + 1))"
    if "k < W * H" for k
  proof -
    have "0 < W" using that by (cases W) simp_all
    define row where "row = k div W"
    define j where "j = k mod W"
    have k: "k = row * W + j"
      by (simp add: row_def j_def)
    have "j < W"
      using \<open>0 < W\<close> by (simp add: j_def)
    moreover have "row < H"
      using that \<open>0 < W\<close> by (simp add: row_def less_mult_imp_div_less mult.commute)
    ultimately have "pixel (updateBuffer s2) (row * W + j) =
          be16 (snd (incoming s1 ! (2 * (row * W + j))))
               (snd (incoming s1 ! (2 * (row * W + j) + 1)))"
      using filled by blast
    then have 1: "pixel (updateBuffer s2) k =
        be16 (snd (incoming s1 ! (2 * k))) (snd (incoming s1 ! (2 * k + 1)))"
      by (simp only: k)
    have "2 * k + 1 < H * (W * 2)"
      using that by (simp add: mult.commute)
    with fits have in_range: "8 + (2 * k + 1) < length (incoming s)"
      by (simp add: size)
    have "incoming s1 ! (2 * k) = incoming s ! (8 + 2 * k)"
      "incoming s1 ! (2 * k + 1) = incoming s ! (8 + (2 * k + 1))"
      using hw(1) by (simp_all add: hw(2))
    with 1 in_range show ?thesis
      by (simp add: nth_bs add.assoc)
  qed
  have "W * H \<le> length (updateBuffer s2) div 2"
  proof -
    have "W * H \<le> 32 * 32"
      using dims by (rule mult_le_mono)
    moreover have "length (updateBuffer s2) = 2048"
      using filled by blast
    ultimately show ?thesis by simp
  qed
  then have "take (W * H) (pixels (updateBuffer s2)) = map (pixel (updateBuffer s2)) [0..<W * H]"
    by (rule take_pixels)
  also have "\<dots> = map (\<lambda>k. be16 (bs ! (8 + 2 * k)) (bs ! (8 + 2 * k + 1))) [0..<W * H]"
    using px by simp
  finally have "sink_view c = wire_region bs"
    by (simp add: sink_view_def wire_region_def c_def mem hdr Let_def W_def H_def)
  moreover have "tft (snd (region i s)) = tft s @ [c]"
    unfolding c_def by (rule p(6))
  moreover have "img_data c = pixels (updateBuffer (snd (region i s)))"
    by (simp add: c_def)
  ultimately show "\<exists>c. tft (snd (region i s)) = tft s @ [c] \<and> sink_view c = wire_region bs \<and>
           img_data c = pixels (updateBuffer (snd (region i s)))"
    by blast
qed

lemma regionLoop_painted_wire:
  "fst (regionLoop numRegions i s) = None \<Longrightarrow>
   length (metaData s) = 8 \<Longrightarrow> length (updateBuffer s) = 2048 \<Longrightarrow>
     map sink_view (drop (length (tft s)) (tft (snd (regionLoop numRegions i s)))) =
       wire_regions (numRegions - i) (map snd (incoming s))"
proof (induction numRegions i s rule: regionLoop_cases)
  case (stop numRegions i s)
  then show ?case by (simp add: regionLoop_stop)
next
  case (abort numRegions i s e)
  then show ?case by (simp add: regionLoop_abort)
next
  case (continue numRegions i s)
  define bs where "bs = map snd (incoming s)"
  define s1 where "s1 = snd (region i s)"
  define s' where "s' = snd (regionLoop numRegions (Suc i) s1)"
  have unfold: "regionLoop numRegions i s = regionLoop numRegions (Suc i) s1"
    unfolding s1_def using continue.hyps by (rule regionLoop_next)
  from region_painted_wire [OF continue.hyps(2) continue.prems(2,3), folded bs_def s1_def]
  obtain c where c: "tft s1 = tft s @ [c]" "sink_view c = wire_region bs"
    and inc: "incoming s1 = drop (wire_size bs) (incoming s)"
    by blast
  have "fst (regionLoop numRegions (Suc i) s1) = None"
    using continue.prems(1) by (simp add: unfold)
  moreover have "length (metaData s1) = 8" "length (updateBuffer s1) = 2048"
    using continue.prems(2,3) by (simp_all add: s1_def)
  ultimately have IH: "map sink_view (drop (length (tft s1)) (tft s')) =
      wire_regions (numRegions - Suc i) (map snd (incoming s1))"
    unfolding s'_def s1_def by (rule continue.IH)
  from regionLoop_tft [of numRegions "Suc i" s1] obtain new where "tft s' = tft s1 @ new"
    unfolding s'_def by blast
  then have "drop (length (tft s)) (tft s') = c # drop (length (tft s1)) (tft s')"
    by (simp add: c(1))
  then have "map sink_view (drop (length (tft s)) (tft s')) =
      wire_region bs # wire_regions (numRegions - Suc i) (drop (wire_size bs) bs)"
    by (simp add: IH c(2) inc bs_def drop_map)
  also have "\<dots> = wire_regions (Suc (numRegions - Suc i)) bs"
    by simp
  also have "Suc (numRegions - Suc i) = numRegions - i"
    using continue.hyps(1) by simp
  finally show ?case
    by (simp add: unfold bs_def flip: s'_def)
qed

lemma one_region_wire:
  "wire_regions 1 [0, 0, 0, 0, 0, 2, 0, 1, 0x00, 0xFF, 0x12, 0x34] = [(0, 0, 2, 1, [0x00FF, 0x1234])]"
proof -
  have "[0..<2] = [0, 1::nat]"
    by (simp add: upt_rec)
  then show ?thesis
    by (simp add: wire_region_def be16_def)
qed


section \<open>The claims\<close>

subsection \<open>C1: every paint call lies within the display\<close>

text \<open>
  Claim C1. Whatever the stream holds, a run of \<^verbatim>\<open>loop()\<close> returns, and every call of
  \<^verbatim>\<open>tft.pushImage\<close> it makes has \<open>x + width \<le> 240\<close>, \<open>y + height \<le> 240\<close>,
  \<open>width \<le> 32\<close> and \<open>height \<le> 32\<close>, the sums being those of the unbounded integers
  (\<open>uint\<close>), not sums modulo \<open>2 ^ 16\<close>.
\<close>

theorem paint_within_display:
  "\<exists>r s' new. loop s = Some (r, s') \<and> tft s' = tft s @ new \<and>
     (\<forall>c \<in> set new.
        uint (img_x c) + uint (img_w c) \<le> 240 \<and> uint (img_y c) + uint (img_h c) \<le> 240 \<and>
        uint (img_w c) \<le> 32 \<and> uint (img_h c) \<le> 32)"
proof (cases "connected s")
  case False
  then show ?thesis
    by (simp add: loop_no_client)
next
  case True
  then show ?thesis
  proof (cases rule: loop_cases)
    case (timeout ms s1)
    then show ?thesis by simp
  next
    case (badcount ms s1 numRegions s2)
    then show ?thesis by simp
  next
    case (aborted ms s1 numRegions s2 e)
    from regionLoop_tft [of "unat numRegions" 0 s2] obtain new where
      "tft (snd (regionLoop (unat numRegions) 0 s2)) = tft s2 @ new"
      "\<forall>c \<in> set new.
        uint (img_x c) + uint (img_w c) \<le> 240 \<and> uint (img_y c) + uint (img_h c) \<le> 240 \<and>
        uint (img_w c) \<le> 32 \<and> uint (img_h c) \<le> 32"
      by blast
    with aborted show ?thesis by simp
  next
    case (finished ms s1 numRegions s2 s3)
    from regionLoop_tft [of "unat numRegions" 0 s2] obtain new where
      "tft (snd (regionLoop (unat numRegions) 0 s2)) = tft s2 @ new"
      "\<forall>c \<in> set new.
        uint (img_x c) + uint (img_w c) \<le> 240 \<and> uint (img_y c) + uint (img_h c) \<le> 240 \<and>
        uint (img_w c) \<le> 32 \<and> uint (img_h c) \<le> 32"
      by blast
    with finished show ?thesis by simp
  qed
qed


theorem paint_within_display_witness:
  "\<exists>s' c. loop one_region = Some (None, s') \<and> tft s' = [c] \<and>
     uint (img_x c) + uint (img_w c) \<le> 240 \<and> uint (img_y c) + uint (img_h c) \<le> 240 \<and>
     uint (img_w c) \<le> 32 \<and> uint (img_h c) \<le> 32"
proof -
  from one_region_run obtain s' c where run: "loop one_region = Some (None, s')" "tft s' = [c]"
    by blast
  from paint_within_display [of one_region] obtain r s'' new where new:
    "loop one_region = Some (r, s'')" "tft s'' = tft one_region @ new"
    "\<forall>c \<in> set new.
        uint (img_x c) + uint (img_w c) \<le> 240 \<and> uint (img_y c) + uint (img_h c) \<le> 240 \<and>
        uint (img_w c) \<le> 32 \<and> uint (img_h c) \<le> 32"
    by blast
  from run(1) new(1) have "s'' = s'" by simp
  with new(2) run(2) have "new = [c]" by (simp add: one_region_def)
  with new(3) have "uint (img_x c) + uint (img_w c) \<le> 240 \<and> uint (img_y c) + uint (img_h c) \<le> 240 \<and>
        uint (img_w c) \<le> 32 \<and> uint (img_h c) \<le> 32"
    by simp
  with run show ?thesis by blast
qed

subsection \<open>C2: every write into the scratch buffer is inside it\<close>

text \<open>
  Claim C2. With the arrays as declared (8 bytes of \<open>metaData\<close>, 2048 bytes of
  \<open>updateBuffer\<close>), whatever the stream holds, a run of \<^verbatim>\<open>loop()\<close> returns, and the writes
  it makes into \<open>updateBuffer\<close> are those of the regions it enters after the count byte, in
  order. Every write of a region is made after that region's header has been read in full,
  and goes to a byte of pixel \<open>row * width + j\<close> with \<open>row < height\<close> and \<open>j < width\<close>, where
  \<open>width\<close> and \<open>height\<close> are the fields decoded from that header (bytes 4 to 7 of the
  stream at the point where the region starts, big-endian), both at most 32. Hence every
  write goes to a pixel index below 1024; no access falls outside an array, and the buffer
  keeps its size.
\<close>

theorem scratch_buffer_writes:
  assumes "length (metaData s) = 8" and "length (updateBuffer s) = 2048"
  shows "\<exists>r s' s1 starts new.
     loop s = Some (r, s') \<and> waitLoop (millis s + 5000) s = Some s1 \<and>
     starts =
       (if connected s \<and> available s1 \<and> fst (client_read s1) \<noteq> 0 \<and> fst (client_read s1) \<le> 100
        then region_starts (unat (fst (client_read s1))) 0 (snd (client_read s1)) else []) \<and>
     new = concat (map (\<lambda>(i, t). region_writes i t) starts) \<and>
     stores s' = stores s @ new \<and>
     (\<forall>a \<in> set new. a div 2 < 1024) \<and>
     (\<forall>(i, t) \<in> set starts. \<forall>a \<in> set (region_writes i t).
        \<exists>t1 width height row j.
          readExactBytes MetaData 8 t = (True, t1) \<and>
          hdr_width t1 = be16 (snd (incoming t ! 4)) (snd (incoming t ! 5)) \<and>
          hdr_height t1 = be16 (snd (incoming t ! 6)) (snd (incoming t ! 7)) \<and>
          width = unat (hdr_width t1) \<and> height = unat (hdr_height t1) \<and>
          width \<le> 32 \<and> height \<le> 32 \<and> row < height \<and> j < width \<and>
          a div 2 = row * width + j) \<and>
     overrun s' = overrun s \<and> length (updateBuffer s') = 2048"
proof -
  obtain s1 where wait: "waitLoop (millis s + 5000) s = Some s1"
    using waitLoop_returns by blast
  then obtain ms0 where s1: "s1 = delay ms0 s"
    using waitLoop_frame by blast
  define starts where "starts =
       (if connected s \<and> available s1 \<and> fst (client_read s1) \<noteq> 0 \<and> fst (client_read s1) \<le> 100
        then region_starts (unat (fst (client_read s1))) 0 (snd (client_read s1)) else [])"
  define new where "new = concat (map (\<lambda>(i, t). region_writes i t) starts)"
  have len: "length (metaData t) = 8" if "(i, t) \<in> set starts" for i t
  proof -
    from that have av: "available s1"
      and "(i, t) \<in> set (region_starts (unat (fst (client_read s1))) 0 (snd (client_read s1)))"
      by (simp_all add: starts_def split: if_splits)
    from region_starts_arrays [OF this(2)] show ?thesis
      using client_read_available [OF av] assms(1) by (simp add: s1)
  qed
  have tied: "\<forall>(i, t) \<in> set starts. \<forall>a \<in> set (region_writes i t).
        \<exists>t1 width height row j.
          readExactBytes MetaData 8 t = (True, t1) \<and>
          hdr_width t1 = be16 (snd (incoming t ! 4)) (snd (incoming t ! 5)) \<and>
          hdr_height t1 = be16 (snd (incoming t ! 6)) (snd (incoming t ! 7)) \<and>
          width = unat (hdr_width t1) \<and> height = unat (hdr_height t1) \<and>
          width \<le> 32 \<and> height \<le> 32 \<and> row < height \<and> j < width \<and>
          a div 2 = row * width + j"
  proof (intro ballI, clarify)
    fix i t a
    assume "(i, t) \<in> set starts" and a: "a \<in> set (region_writes i t)"
    from len [OF this(1)] have l8: "8 \<le> length (metaData t)"
      by simp
    define t1 where "t1 = snd (readExactBytes MetaData 8 t)"
    note tie = region_writes_tied [OF a l8]
    note hw = header_wire [OF tie(1) l8, folded t1_def]
    have "readExactBytes MetaData 8 t = (True, t1)"
      using tie(1) by (simp add: t1_def prod_eq_iff)
    moreover from tie(4) obtain row j where
      "row < unat (hdr_height t1)" "j < unat (hdr_width t1)"
      "a div 2 = row * unat (hdr_width t1) + j"
      by (auto simp add: hw)
    moreover have "unat (hdr_width t1) \<le> 32" "unat (hdr_height t1) \<le> 32"
      using tie(2,3) by (simp_all add: hw)
    ultimately show "\<exists>t1 width height row j.
          readExactBytes MetaData 8 t = (True, t1) \<and>
          hdr_width t1 = be16 (snd (incoming t ! 4)) (snd (incoming t ! 5)) \<and>
          hdr_height t1 = be16 (snd (incoming t ! 6)) (snd (incoming t ! 7)) \<and>
          width = unat (hdr_width t1) \<and> height = unat (hdr_height t1) \<and>
          width \<le> 32 \<and> height \<le> 32 \<and> row < height \<and> j < width \<and>
          a div 2 = row * width + j"
      using hw by blast
  qed
  have bound: "\<forall>a \<in> set new. a div 2 < 1024"
  proof
    fix a
    assume "a \<in> set new"
    then obtain i t where it: "(i, t) \<in> set starts" "a \<in> set (region_writes i t)"
      by (auto simp add: new_def)
    from len [OF it(1)] have l8: "8 \<le> length (metaData t)"
      by simp
    from it(2) l8 show "a div 2 < 1024"
      by (rule region_writes_bound)
  qed
  have run: "\<exists>r s'. loop s = Some (r, s') \<and> stores s' = stores s @ new \<and>
     overrun s' = overrun s \<and> length (updateBuffer s') = 2048"
  proof (cases "connected s \<and> available s1")
    case False
    then have "starts = []"
      by (auto simp add: starts_def)
    moreover from False wait
    have "loop s = Some (Some NoClient, s) \<or> loop s = Some (Some ClientTimeout, client_stop s1)"
      by (auto simp add: loop_def)
    ultimately show ?thesis
      using assms by (auto simp add: new_def s1)
  next
    case True
    define numRegions where "numRegions = fst (client_read s1)"
    define s2 where "s2 = snd (client_read s1)"
    have rd: "client_read s1 = (numRegions, s2)"
      by (simp add: numRegions_def s2_def)
    have s2: "s2 = (delay ms0 s)\<lparr>incoming := tl (incoming s)\<rparr>"
      using client_read_available [of s1] True by (simp add: s2_def s1)
    show ?thesis
    proof (cases "numRegions = 0 \<or> numRegions > 100")
      case bad: True
      then have "starts = []"
        by (auto simp add: starts_def numRegions_def not_le)
      moreover from True wait rd bad
      have "loop s = Some (Some InvalidNumberOfRegions, client_stop s2)"
        by (simp add: loop_def)
      ultimately show ?thesis
        using assms by (simp add: new_def s2)
    next
      case good: False
      define s3 where "s3 = snd (regionLoop (unat numRegions) 0 s2)"
      from good True have "starts = region_starts (unat numRegions) 0 s2"
        by (simp add: starts_def numRegions_def s2_def not_less)
      then have st: "stores s3 = stores s @ new"
        using regionLoop_writes [of "unat numRegions" 0 s2] by (simp add: new_def s3_def s2)
      have ov: "overrun s3 = overrun s"
        using regionLoop_overrun [of s2 "unat numRegions" 0] assms by (simp add: s3_def s2)
      have ln: "length (updateBuffer s3) = 2048"
        using assms by (simp add: s3_def s2)
      from True wait rd good
      have "loop s = Some (fst (regionLoop (unat numRegions) 0 s2), s3) \<or>
          loop s = Some (None, client_stop (drainLoop (delay 10 (client_write [0x4F, 0x4B] s3))))"
        by (cases "fst (regionLoop (unat numRegions) 0 s2)")
          (simp_all add: loop_def s3_def case_prod_unfold)
      then show ?thesis
        using st ov ln by auto
    qed
  qed
  with wait starts_def new_def bound tied show ?thesis
    by blast
qed

theorem scratch_buffer_writes_witness:
  "\<exists>s'. loop one_region = Some (None, s') \<and>
     region_starts 1 0 after_count = [(0, after_count)] \<and>
     region_writes 0 after_count = [0, 1, 2, 3, 0, 1, 2, 3] \<and>
     stores s' = [0, 1, 2, 3, 0, 1, 2, 3] \<and>
     unat (hdr_width (snd (readExactBytes MetaData 8 after_count))) = 2 \<and>
     unat (hdr_height (snd (readExactBytes MetaData 8 after_count))) = 1 \<and>
     (\<exists>row j. row < 1 \<and> j < 2 \<and> (3::nat) div 2 = row * 2 + j) \<and>
     \<not> overrun s' \<and> length (updateBuffer s') = 2048"
proof -
  define h where "h = snd (readExactBytes MetaData 8 after_count)"
  define s2 where "s2 = snd (rowLoop 0 2 1 0 h)"
  define s3 where "s3 = yield (pushImage 0 0 2 1 s2)"
  note hd = one_region_header [folded h_def]
  have dims: "unat (hdr_width h) = 2" "unat (hdr_height h) = 1"
    by (simp_all add: hd)
  have reg: "region 0 after_count = (None, s3)"
    unfolding s3_def s2_def h_def by (rule one_region_painted)
  have starts: "region_starts 1 0 after_count = [(0, after_count)]"
    using region_starts_continue [of 0 1 after_count] by (simp add: reg region_starts_stop)
  have "stores s3 = [0, 1, 2, 3, 0, 1, 2, 3]"
    using one_region_stores by (simp add: s3_def s2_def h_def)
  then have writes: "region_writes 0 after_count = [0, 1, 2, 3, 0, 1, 2, 3]"
    by (simp add: region_writes_def reg after_count_simps)
  have avail: "available one_region"
    by (simp add: available_def one_region_def)
  then have wait: "waitLoop (millis one_region + 5000) one_region = Some one_region"
    by (subst waitLoop.simps) simp
  have rd: "client_read one_region = (1, after_count)"
    using client_read_available [OF avail] by (simp add: after_count_def) (simp add: one_region_def)
  have conn: "connected one_region"
    by (simp add: one_region_def)
  from one_region_run obtain s0 where run: "loop one_region = Some (None, s0)"
    by blast
  have "length (metaData one_region) = 8" "length (updateBuffer one_region) = 2048"
    by (simp_all add: one_region_def)
  from scratch_buffer_writes [OF this] obtain r s' s1 sts new where
    th: "loop one_region = Some (r, s')" "waitLoop (millis one_region + 5000) one_region = Some s1"
      "sts =
       (if connected one_region \<and> available s1 \<and> fst (client_read s1) \<noteq> 0 \<and> fst (client_read s1) \<le> 100
        then region_starts (unat (fst (client_read s1))) 0 (snd (client_read s1)) else [])"
      "new = concat (map (\<lambda>(i, t). region_writes i t) sts)"
      "stores s' = stores one_region @ new"
      "\<forall>(i, t) \<in> set sts. \<forall>a \<in> set (region_writes i t).
        \<exists>t1 width height row j.
          readExactBytes MetaData 8 t = (True, t1) \<and>
          hdr_width t1 = be16 (snd (incoming t ! 4)) (snd (incoming t ! 5)) \<and>
          hdr_height t1 = be16 (snd (incoming t ! 6)) (snd (incoming t ! 7)) \<and>
          width = unat (hdr_width t1) \<and> height = unat (hdr_height t1) \<and>
          width \<le> 32 \<and> height \<le> 32 \<and> row < height \<and> j < width \<and>
          a div 2 = row * width + j"
      "overrun s' = overrun one_region" "length (updateBuffer s') = 2048"
    by (elim exE conjE)
  from th(2) wait have s1: "s1 = one_region"
    by simp
  have sts: "sts = [(0, after_count)]"
    unfolding th(3) s1 using conn avail starts by (simp add: rd)
  from th(1) run have s': "r = None" "s0 = s'"
    by simp_all
  have st: "stores s' = [0, 1, 2, 3, 0, 1, 2, 3]"
    using th(5) by (simp add: th(4) sts writes one_region_def)
  have "3 \<in> set (region_writes 0 after_count)"
    by (simp add: writes)
  with th(6) obtain t1 width height row j where tie:
    "readExactBytes MetaData 8 after_count = (True, t1)"
    "width = unat (hdr_width t1)" "height = unat (hdr_height t1)"
    "row < height" "j < width" "(3::nat) div 2 = row * width + j"
    unfolding sts by fastforce
  from tie(1) have "t1 = h"
    by (simp add: h_def)
  with tie(2-6) dims have "\<exists>row j. row < 1 \<and> j < 2 \<and> (3::nat) div 2 = row * 2 + j"
    by auto
  moreover have "\<not> overrun s'"
    using th(7) by (simp add: one_region_def)
  ultimately show ?thesis
    using th(1,8) s'(1) starts writes st dims unfolding h_def
    by (intro exI [of _ s'] conjI) simp_all
qed

subsection \<open>C3: the header check\<close>

text \<open>
  Claim C3. Let a region header have been read in full, and let \<open>x\<close>, \<open>y\<close>, \<open>width\<close>,
  \<open>height\<close> be the big-endian values of its four byte pairs. If \<open>x + width > 240\<close> or
  \<open>y + height > 240\<close> or \<open>width > 32\<close> or \<open>height > 32\<close> (sums of unbounded integers), the
  region is rejected: the region, and with it the region loop, ends with the abort for
  invalid dimensions, the client is stopped, no byte after the header has left the stream,
  and nothing is painted or written. If none of the four holds, the region goes on to
  read its rows, and paints when they have all been read.
\<close>

theorem header_validation:
  assumes "fst (readExactBytes MetaData 8 s)" and "length (metaData s) = 8"
  defines "s1 \<equiv> snd (readExactBytes MetaData 8 s)"
  defines "x \<equiv> be16 (snd (incoming s ! 0)) (snd (incoming s ! 1))"
  defines "y \<equiv> be16 (snd (incoming s ! 2)) (snd (incoming s ! 3))"
  defines "width \<equiv> be16 (snd (incoming s ! 4)) (snd (incoming s ! 5))"
  defines "height \<equiv> be16 (snd (incoming s ! 6)) (snd (incoming s ! 7))"
  shows "(uint x + uint width > 240 \<or> uint y + uint height > 240 \<or>
          uint width > 32 \<or> uint height > 32 \<longrightarrow>
            region i s = (Some InvalidDimensions, client_stop s1) \<and>
            stopped (client_stop s1) \<and> incoming (client_stop s1) = drop 8 (incoming s) \<and>
            tft (client_stop s1) = tft s \<and> sent (client_stop s1) = sent s \<and>
            updateBuffer (client_stop s1) = updateBuffer s \<and>
            (\<forall>numRegions > i.
               regionLoop numRegions i s = (Some InvalidDimensions, client_stop s1))) \<and>
         (\<not> (uint x + uint width > 240 \<or> uint y + uint height > 240 \<or>
             uint width > 32 \<or> uint height > 32) \<longrightarrow>
            region i s =
              (case rowLoop i (unat width) (unat height) 0 s1 of
                 (Some e, s2) \<Rightarrow> (Some e, s2)
               | (None, s2) \<Rightarrow> (None, yield (pushImage x y width height s2))))"
proof -
  have len: "8 \<le> length (metaData s)"
    using assms(2) by simp
  note hw = header_wire [OF assms(1) len, folded s1_def, folded x_def y_def width_def height_def]
  have inv: "invalid_dimensions s1 \<longleftrightarrow>
      uint x + uint width > 240 \<or> uint y + uint height > 240 \<or> uint width > 32 \<or> uint height > 32"
    by (simp add: invalid_dimensions_def hw MAX_CHUNK_SIZE_def)
  show ?thesis
  proof (intro conjI impI)
    assume bad: "uint x + uint width > 240 \<or> uint y + uint height > 240 \<or>
          uint width > 32 \<or> uint height > 32"
    then show reg: "region i s = (Some InvalidDimensions, client_stop s1)"
      using assms(1) inv by (simp add: region_unfold Let_def flip: s1_def)
    show "stopped (client_stop s1)" "tft (client_stop s1) = tft s" "sent (client_stop s1) = sent s"
      "updateBuffer (client_stop s1) = updateBuffer s"
      by (simp_all add: s1_def)
    show "incoming (client_stop s1) = drop 8 (incoming s)"
      by (simp add: hw)
    show "\<forall>numRegions > i. regionLoop numRegions i s = (Some InvalidDimensions, client_stop s1)"
      using regionLoop_abort [of i _ s InvalidDimensions] by (simp add: reg)
  next
    assume "\<not> (uint x + uint width > 240 \<or> uint y + uint height > 240 \<or>
          uint width > 32 \<or> uint height > 32)"
    then show "region i s =
              (case rowLoop i (unat width) (unat height) 0 s1 of
                 (Some e, s2) \<Rightarrow> (Some e, s2)
               | (None, s2) \<Rightarrow> (None, yield (pushImage x y width height s2)))"
      using assms(1) inv
      by (simp add: region_unfold Let_def hw case_prod_unfold flip: s1_def split: option.splits)
  qed
qed

theorem header_validation_witness:
  "fst (region 0 past_the_edge) = Some InvalidDimensions \<and>
   stopped (snd (region 0 past_the_edge)) \<and> tft (snd (region 0 past_the_edge)) = [] \<and>
   incoming (snd (region 0 past_the_edge)) = [] \<and>
   fst (region 0 after_count) = None"
proof -
  from header_validation [OF fixture_headers(1) fixture_simps(4), of 0]
  have "region 0 past_the_edge =
      (Some InvalidDimensions, client_stop (snd (readExactBytes MetaData 8 past_the_edge)))"
    "incoming (client_stop (snd (readExactBytes MetaData 8 past_the_edge))) =
      drop 8 (incoming past_the_edge)"
    "tft (client_stop (snd (readExactBytes MetaData 8 past_the_edge))) = tft past_the_edge"
    by (simp_all add: fixture_simps be16_def)
  then have 1: "fst (region 0 past_the_edge) = Some InvalidDimensions"
    "stopped (snd (region 0 past_the_edge))" "tft (snd (region 0 past_the_edge)) = []"
    "incoming (snd (region 0 past_the_edge)) = []"
    by (simp_all add: fixture_simps)
  from header_validation [OF one_region_header(1) after_count_simps(4), of 0] one_region_rows(1)
  have 2: "fst (region 0 after_count) = None"
    by (simp add: after_count_simps be16_def case_prod_unfold)
  from 1 2 show ?thesis by simp
qed

subsection \<open>C4: the acknowledgment\<close>

text \<open>
  Claim C4. A run of \<^verbatim>\<open>loop()\<close> with a client returns and has stopped the client. It has
  written either the two bytes \<open>OK\<close> or nothing, and it has written \<open>OK\<close> exactly when it ran
  to the end of the function body (\<open>r = None\<close>), which is exactly when the first byte \<open>N\<close> of
  the stream was read and lies in 1..100 and \<open>N\<close> paint calls were made, one for each
  region. Every other run ends at one of the five aborts and writes nothing.
\<close>

theorem ack_iff_all_regions:
  assumes "connected s"
  shows "\<exists>r s'. loop s = Some (r, s') \<and> stopped s' \<and>
     (sent s' = sent s @ [0x4F, 0x4B] \<or> sent s' = sent s) \<and>
     (sent s' = sent s @ [0x4F, 0x4B] \<longleftrightarrow> r = None) \<and>
     (r = None \<longleftrightarrow>
        incoming s \<noteq> [] \<and> 1 \<le> snd (hd (incoming s)) \<and> snd (hd (incoming s)) \<le> 100 \<and>
        length (tft s') = length (tft s) + unat (snd (hd (incoming s)))) \<and>
     (r = None \<or> r = Some ClientTimeout \<or> r = Some InvalidNumberOfRegions \<or>
      r = Some FailedMetadata \<or> r = Some InvalidDimensions \<or>
      (\<exists>row i. r = Some (FailedRow row i)))"
  using assms
proof (cases rule: loop_cases)
  case (timeout ms s1)
  have "unat (snd (hd (incoming s))) = 0" if "1 \<le> snd (hd (incoming s))"
    "length (tft s) = length (tft s) + unat (snd (hd (incoming s)))"
    using that by simp
  then have "\<not> (1 \<le> snd (hd (incoming s)) \<and>
      length (tft s) = length (tft s) + unat (snd (hd (incoming s))))"
    by (auto simp add: word_le_nat_alt)
  with timeout show ?thesis by auto
next
  case (badcount ms s1 numRegions s2)
  then have "\<not> (1 \<le> snd (hd (incoming s)) \<and> snd (hd (incoming s)) \<le> 100)"
    by (auto simp add: word_le_nat_alt word_less_nat_alt)
  with badcount show ?thesis by auto
next
  case (aborted ms s1 numRegions s2 e)
  then have s2: "s2 = (delay ms s)\<lparr>incoming := tl (incoming s)\<rparr>" by simp
  note cnt = regionLoop_count [OF s2 aborted(5)]
  have e: "e = FailedMetadata \<or> e = InvalidDimensions \<or> (\<exists>row k. e = FailedRow row k)"
    using aborted(7) by (rule regionLoop_error)
  have "stopped (snd (regionLoop (unat numRegions) 0 s2))"
    using aborted(7) by (simp add: regionLoop_stopped)
  moreover have "length (tft (snd (regionLoop (unat numRegions) 0 s2))) \<noteq>
      length (tft s) + unat (snd (hd (incoming s)))"
    using cnt(2) aborted(7) aborted(3) by simp
  ultimately show ?thesis
    using aborted(8) cnt(3) e by auto
next
  case (finished ms s1 numRegions s2 s3)
  then have s2: "s2 = (delay ms s)\<lparr>incoming := tl (incoming s)\<rparr>" by simp
  note cnt = regionLoop_count [OF s2 finished(5)]
  have "incoming s \<noteq> []"
    using available_nonempty [OF finished(2)] finished(1) by simp
  moreover have "length (tft s3) = length (tft s) + unat (snd (hd (incoming s)))"
    using cnt(2) finished(7,8,3) by simp
  moreover have "sent s3 = sent s"
    using cnt(3) finished(8) by simp
  ultimately show ?thesis
    using finished(9,5,6,3) by simp
qed


theorem ack_iff_all_regions_witness:
  "(\<exists>s'. loop one_region = Some (None, s') \<and> sent s' = [0x4F, 0x4B] \<and> length (tft s') = 1 \<and>
      stopped s') \<and>
   (\<exists>s'. loop slow_peer = Some (Some InvalidNumberOfRegions, s') \<and> sent s' = [] \<and> stopped s')"
proof -
  from one_region_run obtain s1 where run1: "loop one_region = Some (None, s1)"
    by blast
  from slow_peer_run obtain s2 where run2: "loop slow_peer = Some (Some InvalidNumberOfRegions, s2)"
    by blast
  have "connected one_region"
    by (simp add: one_region_def)
  from ack_iff_all_regions [OF this] run1
  have "stopped s1" "sent s1 = sent one_region @ [0x4F, 0x4B]"
    "length (tft s1) = length (tft one_region) + unat (snd (hd (incoming one_region)))"
    by auto
  then have 1: "stopped s1" "sent s1 = [0x4F, 0x4B]" "length (tft s1) = 1"
    by (simp_all add: one_region_def)
  have "connected slow_peer"
    by (simp add: slow_peer_def)
  from ack_iff_all_regions [OF this] run2
  have "stopped s2" "sent s2 = sent slow_peer"
    by auto
  then have 2: "stopped s2" "sent s2 = []"
    by (simp_all add: slow_peer_def)
  from run1 run2 1 2 show ?thesis by blast
qed

subsection \<open>C5: the region count\<close>

text \<open>
  Claim C5. When the first wait has ended with a byte available, that byte \<open>N\<close> is read, and
  the run ends with the abort for an invalid count if and only if \<open>N = 0\<close> or \<open>N > 100\<close>;
  then nothing but that one byte has left the stream, nothing was painted and nothing
  written. For \<open>1 \<le> N \<le> 100\<close> the run is that of the region loop for \<open>i = 0, \<dots>, N - 1\<close>:
  it makes at most \<open>N\<close> paint calls, one per region, and exactly \<open>N\<close> when no region fails.
\<close>

theorem region_count_checked:
  assumes "connected s" and "waitLoop (millis s + 5000) s = Some s1" and "available s1"
  defines "numRegions \<equiv> snd (hd (incoming s))"
  defines "s2 \<equiv> s1\<lparr>incoming := tl (incoming s)\<rparr>"
  shows "\<exists>r s'. loop s = Some (r, s') \<and>
     (r = Some InvalidNumberOfRegions \<longleftrightarrow> numRegions = 0 \<or> numRegions > 100) \<and>
     (numRegions = 0 \<or> numRegions > 100 \<longrightarrow>
        s' = client_stop s2 \<and> incoming s' = tl (incoming s) \<and> tft s' = tft s \<and> sent s' = sent s) \<and>
     (1 \<le> numRegions \<and> numRegions \<le> 100 \<longrightarrow>
        r = fst (regionLoop (unat numRegions) 0 s2) \<and>
        length (tft s') \<le> length (tft s) + unat numRegions \<and>
        (r = None \<longleftrightarrow> length (tft s') = length (tft s) + unat numRegions))"
proof -
  obtain ms where s1: "s1 = delay ms s"
    using waitLoop_frame [OF assms(2)] by blast
  have s2: "s2 = (delay ms s)\<lparr>incoming := tl (incoming s)\<rparr>"
    by (simp add: s2_def s1)
  have rd: "client_read s1 = (numRegions, s2)"
    using client_read_available [OF assms(3)] by (simp add: numRegions_def s2_def s1)
  show ?thesis
  proof (cases "numRegions = 0 \<or> numRegions > 100")
    case True
    then have "\<not> (1 \<le> numRegions \<and> numRegions \<le> 100)"
      by (auto simp add: word_le_nat_alt word_less_nat_alt)
    moreover have "loop s = Some (Some InvalidNumberOfRegions, client_stop s2)"
      using assms(1,2,3) rd True by (simp add: loop_def)
    ultimately show ?thesis
      using True by (auto simp add: s2)
  next
    case False
    then have range: "1 \<le> numRegions" "numRegions \<le> 100"
      by (rule count_range)+
    note cnt = regionLoop_count [OF s2 range(1)]
    let ?r = "regionLoop (unat numRegions) 0 s2"
    have not_count: "fst ?r \<noteq> Some InvalidNumberOfRegions"
      using regionLoop_error [of "unat numRegions" 0 s2 InvalidNumberOfRegions] by auto
    show ?thesis
    proof (cases "fst ?r")
      case (Some e)
      then have "loop s = Some (Some e, snd ?r)"
        using assms(1,2,3) rd False by (simp add: loop_def case_prod_unfold)
      with Some False range cnt not_count show ?thesis
        by simp
    next
      case None
      then have "loop s = Some (None, client_stop (drainLoop (delay 10
            (client_write [0x4F, 0x4B] (snd ?r)))))"
        using assms(1,2,3) rd False by (simp add: loop_def case_prod_unfold)
      with None False range cnt show ?thesis
        by simp
    qed
  qed
qed


theorem region_count_checked_witness:
  "(\<exists>s'. loop one_region = Some (None, s') \<and> length (tft s') = 1) \<and>
   (\<exists>s'. loop slow_peer = Some (Some InvalidNumberOfRegions, s') \<and>
      incoming s' = tl (incoming slow_peer) \<and> tft s' = [])"
proof -
  have avail1: "available one_region"
    by (simp add: available_def one_region_def)
  then have wait1: "waitLoop (millis one_region + 5000) one_region = Some one_region"
    by (subst waitLoop.simps) simp
  have count1: "snd (hd (incoming one_region)) = 1"
    by (simp add: one_region_def)
  have "connected one_region"
    by (simp add: one_region_def)
  from region_count_checked [OF this wait1 avail1] obtain r1 s1 where
    1: "loop one_region = Some (r1, s1)"
    "r1 = None \<longleftrightarrow> length (tft s1) = length (tft one_region) + unat (1 :: u8)"
    by (auto simp add: count1)
  from one_region_run 1(1) have "r1 = None"
    by auto
  with 1 have one: "loop one_region = Some (None, s1)" "length (tft s1) = 1"
    by (simp_all add: one_region_def)
  have avail2: "available slow_peer"
    by (simp add: available_def slow_peer_def)
  then have wait2: "waitLoop (millis slow_peer + 5000) slow_peer = Some slow_peer"
    by (subst waitLoop.simps) simp
  have count2: "snd (hd (incoming slow_peer)) = 0xAB"
    by (simp add: slow_peer_def)
  have "connected slow_peer"
    by (simp add: slow_peer_def)
  from region_count_checked [OF this wait2 avail2] obtain r2 s2 where
    "loop slow_peer = Some (r2, s2)" "r2 = Some InvalidNumberOfRegions"
    "incoming s2 = tl (incoming slow_peer)" "tft s2 = tft slow_peer"
    by (auto simp add: count2)
  then have two: "loop slow_peer = Some (Some InvalidNumberOfRegions, s2)"
    "incoming s2 = tl (incoming slow_peer)" "tft s2 = []"
    by (simp_all add: slow_peer_def)
  from one two show ?thesis by blast
qed

subsection \<open>C6: the rows of a region\<close>

text \<open>
  Claim C6. When the row loop of an accepted region (\<open>width \<le> 32\<close>, \<open>height \<le> 32\<close>) runs to
  its end, it has taken exactly \<open>height * (width * 2)\<close> bytes from the stream, \<open>width * 2\<close>
  for each row, and for every \<open>row < height\<close> and \<open>j < width\<close> the pixel at index
  \<open>row * width + j\<close> of the scratch buffer holds the two bytes sent for it in exchanged
  order: byte \<open>2 * k\<close> of the buffer is byte \<open>2 * k + 1\<close> of the payload and the other way
  round. Read as a \<^verbatim>\<open>uint16_t\<close> the pixel is the big-endian value of its two payload bytes.
  The buffer keeps its size, and nothing after the region's pixels is changed.
\<close>

theorem rows_filled_swapped:
  assumes "fst (rowLoop i width height 0 s) = None"
    and "width \<le> 32" and "height \<le> 32" and "length (updateBuffer s) = 2048"
  defines "s' \<equiv> snd (rowLoop i width height 0 s)"
  shows "height * (width * 2) \<le> length (incoming s) \<and>
     incoming s' = drop (height * (width * 2)) (incoming s) \<and>
     length (updateBuffer s') = 2048 \<and>
     (\<forall>row < height. \<forall>j < width.
        updateBuffer s' ! (2 * (row * width + j)) = snd (incoming s ! (2 * (row * width + j) + 1)) \<and>
        updateBuffer s' ! (2 * (row * width + j) + 1) = snd (incoming s ! (2 * (row * width + j))) \<and>
        pixel (updateBuffer s') (row * width + j) =
          be16 (snd (incoming s ! (2 * (row * width + j))))
               (snd (incoming s ! (2 * (row * width + j) + 1)))) \<and>
     (\<forall>a < 2048. height * width * 2 \<le> a \<longrightarrow> updateBuffer s' ! a = updateBuffer s ! a)"
  using assms(1-4) unfolding s'_def by (rule rowLoop_pixels)

theorem rows_filled_swapped_witness:
  "incoming (snd (rowLoop 0 2 1 0 (snd (readExactBytes MetaData 8 after_count)))) = [] \<and>
   updateBuffer (snd (rowLoop 0 2 1 0 (snd (readExactBytes MetaData 8 after_count)))) ! 0 = 0xFF \<and>
   updateBuffer (snd (rowLoop 0 2 1 0 (snd (readExactBytes MetaData 8 after_count)))) ! 1 = 0x00 \<and>
   updateBuffer (snd (rowLoop 0 2 1 0 (snd (readExactBytes MetaData 8 after_count)))) ! 2 = 0x34 \<and>
   updateBuffer (snd (rowLoop 0 2 1 0 (snd (readExactBytes MetaData 8 after_count)))) ! 3 = 0x12 \<and>
   pixel (updateBuffer (snd (rowLoop 0 2 1 0 (snd (readExactBytes MetaData 8 after_count))))) 0 = 0x00FF \<and>
   pixel (updateBuffer (snd (rowLoop 0 2 1 0 (snd (readExactBytes MetaData 8 after_count))))) 1 = 0x1234"
proof -
  define s1 where "s1 = snd (readExactBytes MetaData 8 after_count)"
  define s2 where "s2 = snd (rowLoop 0 2 1 0 s1)"
  have none: "fst (rowLoop 0 2 1 0 s1) = None"
    unfolding s1_def by (rule one_region_rows(1))
  have len: "length (updateBuffer s1) = 2048"
    by (simp add: s1_def after_count_simps)
  have inc: "incoming s1 = map (Pair 0) [0x00, 0xFF, 0x12, 0x34]"
    unfolding s1_def by (rule one_region_header(4))
  note filled = rows_filled_swapped [OF none _ _ len, folded s2_def]
  have "incoming s2 = drop (1 * (2 * 2)) (incoming s1)"
    using filled by simp
  then have 1: "incoming s2 = []"
    by (simp add: inc)
  have cells: "\<forall>row < 1. \<forall>j < 2.
        updateBuffer s2 ! (2 * (row * 2 + j)) = snd (incoming s1 ! (2 * (row * 2 + j) + 1)) \<and>
        updateBuffer s2 ! (2 * (row * 2 + j) + 1) = snd (incoming s1 ! (2 * (row * 2 + j))) \<and>
        pixel (updateBuffer s2) (row * 2 + j) =
          be16 (snd (incoming s1 ! (2 * (row * 2 + j))))
               (snd (incoming s1 ! (2 * (row * 2 + j) + 1)))"
    using filled by simp
  from cells [rule_format, of 0 0] have 2: "updateBuffer s2 ! 0 = 0xFF" "updateBuffer s2 ! 1 = 0x00"
    "pixel (updateBuffer s2) 0 = 0x00FF"
    by (simp_all add: inc be16_def)
  from cells [rule_format, of 0 1] have 3: "updateBuffer s2 ! 2 = 0x34" "updateBuffer s2 ! 3 = 0x12"
    "pixel (updateBuffer s2) 1 = 0x1234"
    by (simp_all add: inc be16_def)
  from 1 2 3 show ?thesis
    by (simp only: s2_def s1_def)
qed

subsection \<open>C7: the run on one region of two pixels\<close>

text \<open>
  Claim C7, as amended. On the request \<open>N = 1\<close>, header \<open>(0, 0, 2, 1)\<close>, payload
  \<open>00 FF 12 34\<close>, the run makes exactly one paint call, for the rectangle \<open>(0, 0, 2, 1)\<close>, and
  writes \<open>OK\<close>. The two pixels the call is handed are \<open>0x00FF\<close> and \<open>0x1234\<close>: the bytes in
  memory are \<open>FF 00 34 12\<close>, each pair exchanged, and the ESP8266 reads a \<^verbatim>\<open>uint16_t\<close> with
  its low byte first.
\<close>

theorem one_region_painted_swapped:
  "\<exists>s' c. loop one_region = Some (None, s') \<and> tft s' = [c] \<and>
     img_x c = 0 \<and> img_y c = 0 \<and> img_w c = 2 \<and> img_h c = 1 \<and>
     take 2 (img_data c) = [0x00FF, 0x1234] \<and> sent s' = [0x4F, 0x4B]"
  using one_region_run by blast

text \<open>
  Claim C7, as stated (the call is handed the pixels \<open>0xFF00\<close> and \<open>0x3412\<close>), does not
  hold of this run.
\<close>

theorem one_region_not_as_claimed:
  "\<not> (\<exists>r s' c. loop one_region = Some (r, s') \<and> tft s' = [c] \<and>
        take 2 (img_data c) = [0xFF00, 0x3412] \<and> sent s' = [0x4F, 0x4B])"
proof
  assume "\<exists>r s' c. loop one_region = Some (r, s') \<and> tft s' = [c] \<and>
        take 2 (img_data c) = [0xFF00, 0x3412] \<and> sent s' = [0x4F, 0x4B]"
  then obtain r s' c where claimed: "loop one_region = Some (r, s')" "tft s' = [c]"
    "take 2 (img_data c) = [0xFF00, 0x3412]"
    by blast
  from one_region_run obtain s'' c' where run: "loop one_region = Some (None, s'')"
    "tft s'' = [c']" "take 2 (img_data c') = [0x00FF, 0x1234]"
    by blast
  from claimed(1) run(1) have "s'' = s'" by simp
  with claimed(2) run(2) have "c' = c" by simp
  with claimed(3) run(3) show False by simp
qed

subsection \<open>C8: the byte reader\<close>





subsection \<open>C9: one paint call for each region\<close>

text \<open>
  Claim C9. With the arrays as declared: a region that succeeds adds exactly one call of
  \<^verbatim>\<open>tft.pushImage\<close>, whose rectangle is that of the region's header and whose pixels are
  those of the scratch buffer as the region has just filled it, which are the pixels of
  the region's payload; a region that fails adds none. A region loop over \<open>numRegions\<close>
  regions that runs to its end has added exactly \<open>numRegions\<close> calls, and they are, in
  order, the first \<open>numRegions\<close> regions of the stream. So are the calls of a whole run of
  \<^verbatim>\<open>loop()\<close> that reaches its end, for the regions that follow the count byte.
\<close>

theorem one_paint_per_region:
  assumes "length (metaData s) = 8" and "length (updateBuffer s) = 2048"
  shows "(fst (region i s) = None \<longrightarrow>
           (\<exists>c. tft (snd (region i s)) = tft s @ [c] \<and>
                sink_view c = wire_region (map snd (incoming s)) \<and>
                img_data c = pixels (updateBuffer (snd (region i s))))) \<and>
         (fst (region i s) \<noteq> None \<longrightarrow> tft (snd (region i s)) = tft s) \<and>
         (fst (regionLoop numRegions 0 s) = None \<longrightarrow>
            length (tft (snd (regionLoop numRegions 0 s))) = length (tft s) + numRegions \<and>
            map sink_view (drop (length (tft s)) (tft (snd (regionLoop numRegions 0 s)))) =
              wire_regions numRegions (map snd (incoming s))) \<and>
         (\<forall>s'. loop s = Some (None, s') \<longrightarrow>
            map sink_view (drop (length (tft s)) (tft s')) =
              wire_regions (unat (snd (hd (incoming s)))) (map snd (tl (incoming s))))"
proof (intro conjI impI allI)
  assume "fst (region i s) = None"
  then show "\<exists>c. tft (snd (region i s)) = tft s @ [c] \<and>
                sink_view c = wire_region (map snd (incoming s)) \<and>
                img_data c = pixels (updateBuffer (snd (region i s)))"
    using assms by (rule region_painted_wire(1))
next
  assume "fst (region i s) \<noteq> None"
  then show "tft (snd (region i s)) = tft s"
    by (rule region_tft_failed)
next
  assume none: "fst (regionLoop numRegions 0 s) = None"
  from regionLoop_tft [of numRegions 0 s] obtain new where
    "tft (snd (regionLoop numRegions 0 s)) = tft s @ new \<and>
     length new \<le> numRegions - 0 \<and>
     (fst (regionLoop numRegions 0 s) = None \<longrightarrow> length new = numRegions - 0) \<and>
     (fst (regionLoop numRegions 0 s) \<noteq> None \<longrightarrow> length new < numRegions - 0) \<and>
     (\<forall>c \<in> set new.
        uint (img_x c) + uint (img_w c) \<le> 240 \<and> uint (img_y c) + uint (img_h c) \<le> 240 \<and>
        uint (img_w c) \<le> 32 \<and> uint (img_h c) \<le> 32)" ..
  with none show "length (tft (snd (regionLoop numRegions 0 s))) = length (tft s) + numRegions"
    by simp
  from regionLoop_painted_wire [OF none assms]
  show "map sink_view (drop (length (tft s)) (tft (snd (regionLoop numRegions 0 s)))) =
      wire_regions numRegions (map snd (incoming s))"
    by simp
next
  fix s'
  assume run: "loop s = Some (None, s')"
  have "connected s"
    using run by (cases "connected s") (simp_all add: loop_no_client)
  then show "map sink_view (drop (length (tft s)) (tft s')) =
      wire_regions (unat (snd (hd (incoming s)))) (map snd (tl (incoming s)))"
  proof (cases rule: loop_cases)
    case (timeout ms s1)
    with run show ?thesis by simp
  next
    case (badcount ms s1 numRegions s2)
    with run show ?thesis by simp
  next
    case (aborted ms s1 numRegions s2 e)
    with run show ?thesis by simp
  next
    case (finished ms s1 numRegions s2 s3)
    have s2: "length (metaData s2) = 8" "length (updateBuffer s2) = 2048" "tft s2 = tft s"
      "incoming s2 = tl (incoming s)"
      using assms finished(1,4) by simp_all
    from regionLoop_painted_wire [OF finished(7) s2(1,2)]
    have "map sink_view (drop (length (tft s)) (tft s3)) =
        wire_regions (unat numRegions) (map snd (tl (incoming s)))"
      by (simp add: s2 finished(8))
    moreover have "tft s' = tft s3"
      using run finished(9) by auto
    ultimately show ?thesis
      by (simp add: finished(3))
  qed
qed

theorem one_paint_per_region_witness:
  "\<exists>s'. loop one_region = Some (None, s') \<and>
     map sink_view (tft s') = [(0, 0, 2, 1, [0x00FF, 0x1234])]"
proof -
  from one_region_run obtain s' where run: "loop one_region = Some (None, s')"
    by blast
  have "length (metaData one_region) = 8" "length (updateBuffer one_region) = 2048"
    by (simp_all add: one_region_def)
  from one_paint_per_region [OF this, of 0 0] run
  have "map sink_view (drop (length (tft one_region)) (tft s')) =
      wire_regions (unat (snd (hd (incoming one_region)))) (map snd (tl (incoming one_region)))"
    by blast
  moreover have "tft one_region = []" "unat (snd (hd (incoming one_region))) = 1"
    "map snd (tl (incoming one_region)) = [0, 0, 0, 0, 0, 2, 0, 1, 0x00, 0xFF, 0x12, 0x34]"
    by (simp_all add: one_region_def)
  ultimately have "map sink_view (tft s') = [(0, 0, 2, 1, [0x00FF, 0x1234])]"
    by (simp only: one_region_wire list.size drop_0)
  with run show ?thesis
    by (intro exI [of _ s'] conjI)
qed

subsection \<open>C10: regions of width or height zero\<close>

text \<open>
  Claim C10. A region whose header has \<open>width = 0\<close> or \<open>height = 0\<close> and lies within the
  bounds passes the check and succeeds whatever the timing: no byte after its header
  leaves the stream, the scratch buffer is not written, \<^verbatim>\<open>tft.pushImage\<close> is still called
  once with the header's \<open>x\<close>, \<open>y\<close>, \<open>width\<close>, \<open>height\<close>, the client is not stopped, and the
  region loop goes on with the next region.
\<close>

theorem zero_dimension_region:
  assumes "fst (readExactBytes MetaData 8 s)" and "length (metaData s) = 8"
  defines "s1 \<equiv> snd (readExactBytes MetaData 8 s)"
  defines "x \<equiv> be16 (snd (incoming s ! 0)) (snd (incoming s ! 1))"
  defines "y \<equiv> be16 (snd (incoming s ! 2)) (snd (incoming s ! 3))"
  defines "width \<equiv> be16 (snd (incoming s ! 4)) (snd (incoming s ! 5))"
  defines "height \<equiv> be16 (snd (incoming s ! 6)) (snd (incoming s ! 7))"
  assumes "width = 0 \<or> height = 0"
    and "uint x + uint width \<le> 240" and "uint y + uint height \<le> 240"
    and "uint width \<le> 32" and "uint height \<le> 32"
  shows "region i s = (None, yield (pushImage x y width height s1)) \<and>
     incoming (snd (region i s)) = drop 8 (incoming s) \<and>
     tft (snd (region i s)) =
       tft s @ [\<lparr>img_x = x, img_y = y, img_w = width, img_h = height,
                 img_data = pixels (updateBuffer s)\<rparr>] \<and>
     updateBuffer (snd (region i s)) = updateBuffer s \<and> stores (snd (region i s)) = stores s \<and>
     stopped (snd (region i s)) = stopped s \<and> sent (snd (region i s)) = sent s \<and>
     (\<forall>numRegions > i.
        regionLoop numRegions i s = regionLoop numRegions (Suc i) (snd (region i s)))"
proof -
  have len: "8 \<le> length (metaData s)"
    using assms(2) by simp
  note hw = header_wire [OF assms(1) len, folded s1_def, folded x_def y_def width_def height_def]
  have valid: "\<not> invalid_dimensions s1"
    using assms(9-12) by (simp add: invalid_dimensions_def hw MAX_CHUNK_SIZE_def not_less)
  have "unat width = 0 \<or> unat height = 0"
    using assms(8) by (auto simp add: unat_eq_0)
  then have rows: "rowLoop i (unat width) (unat height) 0 s1 = (None, s1)"
    by (rule rowLoop_no_pixels)
  have reg: "region i s = (None, yield (pushImage x y width height s1))"
    using assms(1) valid rows by (simp add: region_unfold Let_def hw flip: s1_def)
  moreover have "\<forall>numRegions > i.
      regionLoop numRegions i s = regionLoop numRegions (Suc i) (snd (region i s))"
    using regionLoop_next [of i _ s] by (simp add: reg)
  ultimately show ?thesis
    by (simp add: hw pushImage_def) (simp add: s1_def)
qed

theorem zero_dimension_region_witness:
  "fst (region 0 no_width) = None \<and> incoming (snd (region 0 no_width)) = [] \<and>
   length (tft (snd (region 0 no_width))) = 1 \<and>
   img_w (hd (tft (snd (region 0 no_width)))) = 0 \<and> img_h (hd (tft (snd (region 0 no_width)))) = 3 \<and>
   \<not> stopped (snd (region 0 no_width))"
proof -
  have "be16 (snd (incoming no_width ! 4)) (snd (incoming no_width ! 5)) = 0 \<or>
      be16 (snd (incoming no_width ! 6)) (snd (incoming no_width ! 7)) = 0"
    "uint (be16 (snd (incoming no_width ! 0)) (snd (incoming no_width ! 1))) +
     uint (be16 (snd (incoming no_width ! 4)) (snd (incoming no_width ! 5))) \<le> 240"
    "uint (be16 (snd (incoming no_width ! 2)) (snd (incoming no_width ! 3))) +
     uint (be16 (snd (incoming no_width ! 6)) (snd (incoming no_width ! 7))) \<le> 240"
    "uint (be16 (snd (incoming no_width ! 4)) (snd (incoming no_width ! 5))) \<le> 32"
    "uint (be16 (snd (incoming no_width ! 6)) (snd (incoming no_width ! 7))) \<le> 32"
    by (simp_all add: fixture_simps be16_def)
  note z = zero_dimension_region [OF fixture_headers(2) fixture_simps(10) this, of 0]
  have 1: "fst (region 0 no_width) = None"
    using z [THEN conjunct1] by simp
  have 2: "incoming (snd (region 0 no_width)) = []"
    using z [THEN conjunct2, THEN conjunct1] by (simp add: fixture_simps)
  have 3: "length (tft (snd (region 0 no_width))) = 1"
    "img_w (hd (tft (snd (region 0 no_width)))) = 0" "img_h (hd (tft (snd (region 0 no_width)))) = 3"
    using z [THEN conjunct2, THEN conjunct2, THEN conjunct1]
    by (simp_all add: fixture_simps be16_def)
  have 4: "\<not> stopped (snd (region 0 no_width))"
    using z [THEN conjunct2, THEN conjunct2, THEN conjunct2, THEN conjunct2, THEN conjunct2,
        THEN conjunct1]
    by (simp add: fixture_simps)
  from 1 2 3 4 show ?thesis by simp
qed

end
